theory Spec2Isabelle
  imports Main
begin

section \<open>Values, membership tables and the store\<close>

text \<open>
  A \<open>Set\<close> interface value holds a pointer of one of the two implementing types:
  \<open>*threadUnsafeSet\<close> (\<open>U a\<close>) or \<open>*threadSafeSet\<close> (\<open>S a\<close>). A type assertion
  \<open>other.(*threadUnsafeSet)\<close> is a case distinction on the constructor.
\<close>

datatype ref = U nat | S nat

text \<open>
  The elements (\<open>interface{}\<close> values used as map keys). Only hashable values can be keys
  of a Go map, so slices and maps are not elements; they occur only as decoder output
  (type \<open>jvalue\<close> below). \<open>VNumber\<close> is \<open>json.Number\<close>, \<open>OrderedPair\<close> the struct of
  that name, \<open>VPtr\<close> a pointer to a set (the members of a power set).
\<close>

datatype val =
    VNil
  | VBool bool
  | VInt int
  | VStr string
  | VNumber string
  | VPtr ref
  | OrderedPair val val

text \<open>
  \<open>type threadUnsafeSet map[interface{}]struct{}\<close>: the table is the list of its keys, in
  the order in which a \<open>range\<close> loop visits them. Go leaves that order open; the
  representation invariant is that no key occurs twice (\<open>distinct\<close>), and the theorems
  below are stated for every such list.
\<close>

type_synonym threadUnsafeSet = "val list"

definition newThreadUnsafeSet :: threadUnsafeSet where
  "newThreadUnsafeSet = []"

definition Add :: "threadUnsafeSet \<Rightarrow> val \<Rightarrow> bool \<times> threadUnsafeSet" where
  "Add s key = (if key \<in> set s then (False, s) else (True, s @ [key]))"

fun Contains :: "threadUnsafeSet \<Rightarrow> val list \<Rightarrow> bool" where
  "Contains s [] = True"
| "Contains s (key # keys) = (if key \<notin> set s then False else Contains s keys)"

definition Cardinality :: "threadUnsafeSet \<Rightarrow> int" where
  "Cardinality s = int (length s)"


definition Clear :: "threadUnsafeSet \<Rightarrow> threadUnsafeSet" where
  "Clear s = newThreadUnsafeSet"


subsection \<open>The store\<close>

text \<open>
  \<open>sync.RWMutex\<close> as one goroutine sees it while no other goroutine runs: the number of
  read holds and whether the write lock is held. Acquiring a lock that cannot be granted
  blocks (\<open>Blocked\<close>: the call does not return); releasing a lock that is not held is the
  runtime's fatal error.
\<close>

record RWMutex =
  readers :: nat
  writer :: bool

text \<open>
  \<open>threadSafeSet{objects, mutex}\<close>. The field \<open>objects\<close> is a location of its own in the
  store of tables, so that \<open>&set.objects\<close> is a \<open>*threadUnsafeSet\<close> like any other.
\<close>

record threadSafeSet =
  objects :: nat
  mutex :: RWMutex

datatype event = EvRLock nat | EvRUnlock nat | EvLock nat | EvUnlock nat

record state =
  usets :: "threadUnsafeSet list"
  ssets :: "threadSafeSet list"
  trace :: "event list"

datatype fault =
    PanicTypeAssertion
  | PanicNilDeref
  | FatalRUnlock
  | FatalUnlock
  | Blocked

definition bindF :: "fault + 'a \<Rightarrow> ('a \<Rightarrow> fault + 'b) \<Rightarrow> fault + 'b" where
  "bindF m f = (case m of Inl e \<Rightarrow> Inl e | Inr x \<Rightarrow> f x)"

definition deref :: "'a list \<Rightarrow> nat \<Rightarrow> fault + 'a" where
  "deref xs a = (if a < length xs then Inr (xs ! a) else Inl PanicNilDeref)"

definition alloc_unsafe :: "state \<Rightarrow> threadUnsafeSet \<Rightarrow> nat \<times> state" where
  "alloc_unsafe st t = (length (usets st), st\<lparr>usets := usets st @ [t]\<rparr>)"

definition alloc_safe :: "state \<Rightarrow> nat \<Rightarrow> nat \<times> state" where
  "alloc_safe st c =
     (length (ssets st),
      st\<lparr>ssets := ssets st @ [\<lparr>objects = c, mutex = \<lparr>readers = 0, writer = False\<rparr>\<rparr>]\<rparr>)"

definition set_mutex :: "state \<Rightarrow> nat \<Rightarrow> RWMutex \<Rightarrow> event \<Rightarrow> state" where
  "set_mutex st a m ev =
     st\<lparr>ssets := (ssets st)[a := (ssets st ! a)\<lparr>mutex := m\<rparr>], trace := trace st @ [ev]\<rparr>"

definition mutex_RLock :: "nat \<Rightarrow> state \<Rightarrow> fault + state" where
  "mutex_RLock a st =
     bindF (deref (ssets st) a) (\<lambda>s.
       if writer (mutex s) then Inl Blocked
       else Inr (set_mutex st a ((mutex s)\<lparr>readers := Suc (readers (mutex s))\<rparr>) (EvRLock a)))"

definition mutex_RUnlock :: "nat \<Rightarrow> state \<Rightarrow> fault + state" where
  "mutex_RUnlock a st =
     bindF (deref (ssets st) a) (\<lambda>s.
       if readers (mutex s) = 0 then Inl FatalRUnlock
       else Inr (set_mutex st a ((mutex s)\<lparr>readers := readers (mutex s) - 1\<rparr>) (EvRUnlock a)))"

definition mutex_Lock :: "nat \<Rightarrow> state \<Rightarrow> fault + state" where
  "mutex_Lock a st =
     bindF (deref (ssets st) a) (\<lambda>s.
       if writer (mutex s) \<or> readers (mutex s) \<noteq> 0 then Inl Blocked
       else Inr (set_mutex st a ((mutex s)\<lparr>writer := True\<rparr>) (EvLock a)))"

definition mutex_Unlock :: "nat \<Rightarrow> state \<Rightarrow> fault + state" where
  "mutex_Unlock a st =
     bindF (deref (ssets st) a) (\<lambda>s.
       if \<not> writer (mutex s) then Inl FatalUnlock
       else Inr (set_mutex st a ((mutex s)\<lparr>writer := False\<rparr>) (EvUnlock a)))"

text \<open>The table behind \<open>set.objects\<close> of the guarded set at \<open>a\<close>, and a method of the
  unguarded set applied to it in place.\<close>

definition objects_of :: "state \<Rightarrow> nat \<Rightarrow> fault + nat" where
  "objects_of st a = bindF (deref (ssets st) a) (\<lambda>s. Inr (objects s))"

definition on_table ::
  "state \<Rightarrow> nat \<Rightarrow> (threadUnsafeSet \<Rightarrow> 'r \<times> threadUnsafeSet) \<Rightarrow> fault + ('r \<times> state)" where
  "on_table st c f =
     bindF (deref (usets st) c) (\<lambda>t.
       case f t of (r, t') \<Rightarrow> Inr (r, st\<lparr>usets := (usets st)[c := t']\<rparr>))"

subsection \<open>Guarded set: methods on the receiver alone\<close>

text \<open>
  Each method takes its lock, defers the release, and forwards to the unguarded method on
  \<open>set.objects\<close>. The deferred call runs after the result has been computed.
\<close>

definition safe_Add :: "state \<Rightarrow> nat \<Rightarrow> val \<Rightarrow> fault + (bool \<times> state)" where
  "safe_Add st a i =
     bindF (mutex_Lock a st) (\<lambda>st1.
     bindF (objects_of st1 a) (\<lambda>c.
     bindF (on_table st1 c (\<lambda>t. Add t i)) (\<lambda>(r, st2).
     bindF (mutex_Unlock a st2) (\<lambda>st3. Inr (r, st3)))))"


definition safe_Contains :: "state \<Rightarrow> nat \<Rightarrow> val list \<Rightarrow> fault + (bool \<times> state)" where
  "safe_Contains st a i =
     bindF (mutex_RLock a st) (\<lambda>st1.
     bindF (objects_of st1 a) (\<lambda>c.
     bindF (deref (usets st1) c) (\<lambda>t.
     bindF (mutex_RUnlock a st1) (\<lambda>st2. Inr (Contains t i, st2)))))"


definition safe_Iter :: "state \<Rightarrow> nat \<Rightarrow> fault + (val list \<times> state)" where
  \<comment> \<open>the elements the channel delivers when the consumer drains it\<close>
  "safe_Iter st a =
     bindF (mutex_RLock a st) (\<lambda>st1.
     bindF (objects_of st1 a) (\<lambda>c.
     bindF (deref (usets st1) c) (\<lambda>t.
     bindF (mutex_RUnlock a st1) (\<lambda>st2. Inr (t, st2)))))"

subsection \<open>Calls through the \<open>Set\<close> interface\<close>


fun Set_Contains :: "state \<Rightarrow> ref \<Rightarrow> val list \<Rightarrow> fault + (bool \<times> state)" where
  "Set_Contains st (U b) keys = bindF (deref (usets st) b) (\<lambda>t. Inr (Contains t keys, st))"
| "Set_Contains st (S b) keys = safe_Contains st b keys"

fun Set_Add :: "state \<Rightarrow> ref \<Rightarrow> val \<Rightarrow> fault + (bool \<times> state)" where
  "Set_Add st (U b) key = on_table st b (\<lambda>t. Add t key)"
| "Set_Add st (S b) key = safe_Add st b key"

fun Set_Iter :: "state \<Rightarrow> ref \<Rightarrow> fault + (val list \<times> state)" where
  "Set_Iter st (U b) = bindF (deref (usets st) b) (\<lambda>t. Inr (t, st))"
| "Set_Iter st (S b) = safe_Iter st b"

subsection \<open>Unguarded set: comparisons\<close>





subsection \<open>Unguarded set: algebra\<close>

definition add_all :: "val list \<Rightarrow> threadUnsafeSet \<Rightarrow> threadUnsafeSet" where
  \<comment> \<open>\<open>for elem := range xs { acc.Add(elem) }\<close>\<close>
  "add_all xs acc = fold (\<lambda>elem acc. snd (Add acc elem)) xs acc"

definition add_common :: "val list \<Rightarrow> threadUnsafeSet \<Rightarrow> threadUnsafeSet \<Rightarrow> threadUnsafeSet" where
  \<comment> \<open>\<open>for elem := range xs { if other.Contains(elem) { acc.Add(elem) } }\<close>\<close>
  "add_common xs other acc =
     fold (\<lambda>elem acc. if Contains other [elem] then snd (Add acc elem) else acc) xs acc"

definition unsafe_Union :: "state \<Rightarrow> nat \<Rightarrow> ref \<Rightarrow> fault + (ref \<times> state)" where
  "unsafe_Union st a other =
     (case other of
        S _ \<Rightarrow> Inl PanicTypeAssertion
      | U b \<Rightarrow>
          bindF (deref (usets st) a) (\<lambda>s.
          bindF (deref (usets st) b) (\<lambda>t.
            case alloc_unsafe st (add_all t (add_all s newThreadUnsafeSet)) of
              (u, st1) \<Rightarrow> Inr (U u, st1))))"

definition unsafe_Intersect :: "state \<Rightarrow> nat \<Rightarrow> ref \<Rightarrow> fault + (ref \<times> state)" where
  "unsafe_Intersect st a other =
     (case other of
        S _ \<Rightarrow> Inl PanicTypeAssertion
      | U b \<Rightarrow>
          bindF (deref (usets st) a) (\<lambda>s.
          bindF (deref (usets st) b) (\<lambda>t.
            case alloc_unsafe st
                   (if Cardinality s < Cardinality t
                    then add_common s t newThreadUnsafeSet
                    else add_common t s newThreadUnsafeSet) of
              (i, st1) \<Rightarrow> Inr (U i, st1))))"

fun add_missing ::
  "ref \<Rightarrow> val list \<Rightarrow> threadUnsafeSet \<Rightarrow> state \<Rightarrow> fault + (threadUnsafeSet \<times> state)" where
  \<comment> \<open>\<open>for elem := range *set { if !other.Contains(elem) { difference.Add(elem) } }\<close>\<close>
  "add_missing other [] d st = Inr (d, st)"
| "add_missing other (elem # rest) d st =
     bindF (Set_Contains st other [elem]) (\<lambda>(c, st1).
       add_missing other rest (if \<not> c then snd (Add d elem) else d) st1)"

definition unsafe_Difference :: "state \<Rightarrow> nat \<Rightarrow> ref \<Rightarrow> fault + (ref \<times> state)" where
  "unsafe_Difference st a other =
     bindF (deref (usets st) a) (\<lambda>s.
     bindF (add_missing other s newThreadUnsafeSet st) (\<lambda>(d, st1).
       case alloc_unsafe st1 d of (r, st2) \<Rightarrow> Inr (U r, st2)))"

text \<open>Modelled from the spec: the exported constructor \<open>NewThreadUnsafeSet\<close> is declared
  outside the two source files; by the spec (section 3, Lifecycle) a set is created empty
  via a constructor, so it allocates an empty unguarded set and returns it as a \<open>Set\<close>.\<close>

definition NewThreadUnsafeSet :: "state \<Rightarrow> ref \<times> state" where
  "NewThreadUnsafeSet st =
     (case alloc_unsafe st newThreadUnsafeSet of (r, st1) \<Rightarrow> (U r, st1))"

fun add_each :: "ref \<Rightarrow> val list \<Rightarrow> state \<Rightarrow> fault + state" where
  \<comment> \<open>\<open>for _, e := range elems { dst.Add(e) }\<close> through the interface\<close>
  "add_each dst [] st = Inr st"
| "add_each dst (e # es) st = bindF (Set_Add st dst e) (\<lambda>(_, st1). add_each dst es st1)"

definition pairs :: "val list \<Rightarrow> val list \<Rightarrow> val list" where
  \<comment> \<open>the pairs in the order of the nested loops \<open>for i := range *set { for j := range *o\<close>\<close>
  "pairs s t = concat (map (\<lambda>i. map (\<lambda>j. OrderedPair i j) t) s)"

definition unsafe_CartesianProduct :: "state \<Rightarrow> nat \<Rightarrow> ref \<Rightarrow> fault + (ref \<times> state)" where
  "unsafe_CartesianProduct st a other =
     (case other of
        S _ \<Rightarrow> Inl PanicTypeAssertion
      | U b \<Rightarrow>
          (case NewThreadUnsafeSet st of (cartProduct, st1) \<Rightarrow>
          bindF (deref (usets st1) a) (\<lambda>s.
          bindF (deref (usets st1) b) (\<lambda>t.
          bindF (add_each cartProduct (pairs s t) st1) (\<lambda>st2. Inr (cartProduct, st2))))))"

subsection \<open>Guarded set: operations on two sets\<close>

text \<open>
  The common shape of the two-operand methods:
  \<open>set.mutex.RLock(); defer ...; o.mutex.RLock(); defer ...; body\<close>. The deferred calls
  are the list \<open>deferred\<close>, in the order in which they run (last deferred first).
\<close>

fun run_deferred :: "nat list \<Rightarrow> state \<Rightarrow> fault + state" where
  "run_deferred [] st = Inr st"
| "run_deferred (m # ms) st = bindF (mutex_RUnlock m st) (run_deferred ms)"

definition rlocked2 ::
  "state \<Rightarrow> nat \<Rightarrow> nat \<Rightarrow> nat list \<Rightarrow> (state \<Rightarrow> nat \<Rightarrow> ref \<Rightarrow> fault + ('r \<times> state))
     \<Rightarrow> fault + ('r \<times> state)" where
  "rlocked2 st a b deferred body =
     bindF (mutex_RLock a st) (\<lambda>st1.
     bindF (mutex_RLock b st1) (\<lambda>st2.
     bindF (objects_of st2 a) (\<lambda>ca.
     bindF (objects_of st2 b) (\<lambda>cb.
     bindF (body st2 ca (U cb)) (\<lambda>(r, st3).
     bindF (run_deferred deferred st3) (\<lambda>st4. Inr (r, st4)))))))"

definition wrap_safe ::
  "(state \<Rightarrow> nat \<Rightarrow> ref \<Rightarrow> fault + (ref \<times> state)) \<Rightarrow> state \<Rightarrow> nat \<Rightarrow> ref \<Rightarrow> fault + (ref \<times> state)" where
  \<comment> \<open>\<open>r := set.objects.Op(&o.objects).(*threadUnsafeSet); return &threadSafeSet{objects: *r}\<close>\<close>
  "wrap_safe f st ca other =
     bindF (f st ca other) (\<lambda>(r, st1).
       case r of
         S _ \<Rightarrow> Inl PanicTypeAssertion
       | U c \<Rightarrow> (case alloc_safe st1 c of (g, st2) \<Rightarrow> Inr (S g, st2)))"




definition safe_Union :: "state \<Rightarrow> nat \<Rightarrow> ref \<Rightarrow> fault + (ref \<times> state)" where
  "safe_Union st a other =
     (case other of U _ \<Rightarrow> Inl PanicTypeAssertion
      | S b \<Rightarrow> rlocked2 st a b [b, a] (wrap_safe unsafe_Union))"

definition safe_Intersect :: "state \<Rightarrow> nat \<Rightarrow> ref \<Rightarrow> fault + (ref \<times> state)" where
  "safe_Intersect st a other =
     (case other of U _ \<Rightarrow> Inl PanicTypeAssertion
      | S b \<Rightarrow> rlocked2 st a b [b, a] (wrap_safe unsafe_Intersect))"

definition safe_Difference :: "state \<Rightarrow> nat \<Rightarrow> ref \<Rightarrow> fault + (ref \<times> state)" where
  "safe_Difference st a other =
     (case other of U _ \<Rightarrow> Inl PanicTypeAssertion
      | S b \<Rightarrow> rlocked2 st a b [b, a] (wrap_safe unsafe_Difference))"

text \<open>\<open>CartesianProduct\<close> defers \<open>set.mutex.RUnlock()\<close> twice.\<close>

definition safe_CartesianProduct :: "state \<Rightarrow> nat \<Rightarrow> ref \<Rightarrow> fault + (ref \<times> state)" where
  "safe_CartesianProduct st a other =
     (case other of U _ \<Rightarrow> Inl PanicTypeAssertion
      | S b \<Rightarrow> rlocked2 st a b [a, a] (wrap_safe unsafe_CartesianProduct))"

subsection \<open>Symmetric difference and the mirrored subset tests\<close>

fun Set_Difference :: "state \<Rightarrow> ref \<Rightarrow> ref \<Rightarrow> fault + (ref \<times> state)" where
  "Set_Difference st (U b) other = unsafe_Difference st b other"
| "Set_Difference st (S b) other = safe_Difference st b other"

fun Set_Union :: "state \<Rightarrow> ref \<Rightarrow> ref \<Rightarrow> fault + (ref \<times> state)" where
  "Set_Union st (U b) other = unsafe_Union st b other"
| "Set_Union st (S b) other = safe_Union st b other"

definition unsafe_SymmetricDifference :: "state \<Rightarrow> nat \<Rightarrow> ref \<Rightarrow> fault + (ref \<times> state)" where
  "unsafe_SymmetricDifference st a other =
     bindF (unsafe_Difference st a other) (\<lambda>(sdo, st1).
     bindF (Set_Difference st1 other (U a)) (\<lambda>(ods, st2).
       Set_Union st2 sdo ods))"

definition safe_SymmetricDifference :: "state \<Rightarrow> nat \<Rightarrow> ref \<Rightarrow> fault + (ref \<times> state)" where
  "safe_SymmetricDifference st a other =
     (case other of U _ \<Rightarrow> Inl PanicTypeAssertion
      | S b \<Rightarrow> rlocked2 st a b [b, a] (wrap_safe unsafe_SymmetricDifference))"





subsection \<open>Power set\<close>

text \<open>
  \<open>reflect.TypeOf(er).Name()\<close>: the name of a defined type, empty for a pointer type;
  \<open>reflect.TypeOf(nil)\<close> is the nil \<open>Type\<close>, on which the method call panics.
\<close>

fun type_Name :: "val \<Rightarrow> fault + string" where
  "type_Name VNil = Inl PanicNilDeref"
| "type_Name (VBool _) = Inr ''bool''"
| "type_Name (VInt _) = Inr ''int''"
| "type_Name (VStr _) = Inr ''string''"
| "type_Name (VNumber _) = Inr ''Number''"
| "type_Name (VPtr _) = Inr []"
| "type_Name (OrderedPair _ _) = Inr ''OrderedPair''"

definition copy_member :: "state \<Rightarrow> val \<Rightarrow> fault + threadUnsafeSet" where
  \<comment> \<open>\<open>p\<close> after the branch on the type name\<close>
  "copy_member st er =
     bindF (type_Name er) (\<lambda>name.
       if name = [] then
         (case er of
            VPtr r \<Rightarrow>
              (case r of
                 U k \<Rightarrow> bindF (deref (usets st) k) (\<lambda>t. Inr (add_all t newThreadUnsafeSet))
               | S _ \<Rightarrow> Inl PanicTypeAssertion)
          | _ \<Rightarrow> Inl PanicTypeAssertion)
       else Inr (snd (Add newThreadUnsafeSet er)))"

fun subsets_with ::
  "val \<Rightarrow> val list \<Rightarrow> threadUnsafeSet \<Rightarrow> state \<Rightarrow> fault + (threadUnsafeSet \<times> state)" where
  \<comment> \<open>\<open>for er := range j { p := copy of er; p.Add(item); u.Add(&p) }\<close>\<close>
  "subsets_with item [] u st = Inr (u, st)"
| "subsets_with item (er # ers) u st =
     bindF (copy_member st er) (\<lambda>p.
       case alloc_unsafe st (snd (Add p item)) of
         (pa, st1) \<Rightarrow> subsets_with item ers (snd (Add u (VPtr (U pa)))) st1)"

fun powerset_loop :: "val list \<Rightarrow> ref \<Rightarrow> state \<Rightarrow> fault + (ref \<times> state)" where
  \<comment> \<open>\<open>for item := range *set { u := ...; powSet = powSet.Union(&u) }\<close>\<close>
  "powerset_loop [] powSet st = Inr (powSet, st)"
| "powerset_loop (item # items) powSet st =
     bindF (Set_Iter st powSet) (\<lambda>(j, st1).
     bindF (subsets_with item j newThreadUnsafeSet st1) (\<lambda>(u, st2).
       case alloc_unsafe st2 u of
         (ua, st3) \<Rightarrow>
           bindF (Set_Union st3 powSet (U ua)) (\<lambda>(powSet', st4).
             powerset_loop items powSet' st4)))"

definition unsafe_PowerSet :: "state \<Rightarrow> nat \<Rightarrow> fault + (ref \<times> state)" where
  "unsafe_PowerSet st a =
     (case NewThreadUnsafeSet st of (powSet, st1) \<Rightarrow>
      case alloc_unsafe st1 newThreadUnsafeSet of (nullset, st2) \<Rightarrow>
        bindF (Set_Add st2 powSet (VPtr (U nullset))) (\<lambda>(_, st3).
        bindF (deref (usets st3) a) (\<lambda>s. powerset_loop s powSet st3)))"

fun wrap_subsets :: "nat \<Rightarrow> val list \<Rightarrow> state \<Rightarrow> fault + state" where
  \<comment> \<open>\<open>for subset := range ... { tss.Add(&threadSafeSet{objects: *subset.(*threadUnsafeSet)}) }\<close>\<close>
  "wrap_subsets tss [] st = Inr st"
| "wrap_subsets tss (member # rest) st =
     (case member of
        VPtr r \<Rightarrow>
          (case r of
             U unsafeSubset \<Rightarrow>
               (case alloc_safe st unsafeSubset of
                  (g, st1) \<Rightarrow>
                    bindF (safe_Add st1 tss (VPtr (S g))) (\<lambda>(_, st2). wrap_subsets tss rest st2))
           | S _ \<Rightarrow> Inl PanicTypeAssertion)
      | _ \<Rightarrow> Inl PanicTypeAssertion)"

definition safe_PowerSet :: "state \<Rightarrow> nat \<Rightarrow> fault + (ref \<times> state)" where
  "safe_PowerSet st a =
     bindF (mutex_RLock a st) (\<lambda>st1.
     bindF (objects_of st1 a) (\<lambda>c.
     bindF (unsafe_PowerSet st1 c) (\<lambda>(r, st2).
       case r of
         S _ \<Rightarrow> Inl PanicTypeAssertion
       | U unsafePowerSet \<Rightarrow>
           bindF (mutex_RUnlock a st2) (\<lambda>st3.
             case alloc_unsafe st3 newThreadUnsafeSet of (c', st4) \<Rightarrow>
             case alloc_safe st4 c' of (tss, st5) \<Rightarrow>
               bindF (Set_Iter st5 (U unsafePowerSet)) (\<lambda>(subsets, st6).
               bindF (wrap_subsets tss subsets st6) (\<lambda>st7. Inr (S tss, st7)))))))"

text \<open>
  Following the spec's words (4.1, PowerSet): start the accumulator with the singleton
  family containing the empty set; for each element \<open>e\<close> of the source set, build a new
  family by adding \<open>e\<close> to every subset currently in the accumulator, then union that
  family into the accumulator.
\<close>

definition PowerSet_spec :: "val list \<Rightarrow> val set set" where
  "PowerSet_spec A = fold (\<lambda>e acc. acc \<union> insert e ` acc) A {{}}"

text \<open>The elements of the set a member of a power set points to.\<close>

definition table_of :: "state \<Rightarrow> nat \<Rightarrow> threadUnsafeSet" where
  "table_of st a = usets st ! objects (ssets st ! a)"

fun pointee :: "state \<Rightarrow> val \<Rightarrow> val set" where
  "pointee st (VPtr (U k)) = set (usets st ! k)"
| "pointee st (VPtr (S g)) = set (table_of st g)"
| "pointee st _ = {}"

subsection \<open>Lock events of a call\<close>




section \<open>Serialization\<close>

text \<open>
  What \<open>Decode\<close> stores into \<open>[]interface{}\<close> with \<open>UseNumber\<close>: \<open>nil\<close>, \<open>bool\<close>,
  \<open>json.Number\<close>, \<open>string\<close>, \<open>[]interface{}\<close> and \<open>map[string]interface{}\<close>.
\<close>

datatype jvalue =
    JNull
  | JBool bool
  | JNumber string
  | JString string
  | JArray "jvalue list"
  | JObject "(string \<times> jvalue) list"

fun to_val :: "jvalue \<Rightarrow> val option" where
  \<comment> \<open>the type switch: \<open>None\<close> for the two cases that \<open>continue\<close>\<close>
  "to_val (JArray _) = None"
| "to_val (JObject _) = None"
| "to_val JNull = Some VNil"
| "to_val (JBool b) = Some (VBool b)"
| "to_val (JNumber n) = Some (VNumber n)"
| "to_val (JString x) = Some (VStr x)"

fun add_decoded :: "jvalue list \<Rightarrow> threadUnsafeSet \<Rightarrow> threadUnsafeSet" where
  "add_decoded [] s = s"
| "add_decoded (v # vs) s =
     (case to_val v of None \<Rightarrow> add_decoded vs s | Some t \<Rightarrow> add_decoded vs (snd (Add s t)))"

text \<open>
  \<open>encoding/json\<close> is not part of the repository: the decoder
  (\<open>json.NewDecoder(...).UseNumber().Decode(&i)\<close>) and the element encoder
  (\<open>json.Marshal\<close>) are parameters. The result is the returned \<open>error\<close> (\<open>None\<close> for
  \<open>nil\<close>) and the table after the call.
\<close>

definition UnmarshalJSON ::
  "(string \<Rightarrow> 'e + jvalue list) \<Rightarrow> threadUnsafeSet \<Rightarrow> string \<Rightarrow> 'e option \<times> threadUnsafeSet" where
  "UnmarshalJSON Decode s b =
     (case Decode b of
        Inl err \<Rightarrow> (Some err, s)
      | Inr i \<Rightarrow> (None, add_decoded i s))"

fun Join :: "string list \<Rightarrow> string \<Rightarrow> string" where
  "Join [] sep = []"
| "Join [x] sep = x"
| "Join (x # y # xs) sep = x @ sep @ Join (y # xs) sep"

fun marshal_items :: "(val \<Rightarrow> 'e + string) \<Rightarrow> val list \<Rightarrow> string list \<Rightarrow> 'e + string list" where
  "marshal_items Marshal [] items = Inr items"
| "marshal_items Marshal (elem # rest) items =
     (case Marshal elem of
        Inl err \<Rightarrow> Inl err
      | Inr b \<Rightarrow> marshal_items Marshal rest (items @ [b]))"

definition MarshalJSON :: "(val \<Rightarrow> 'e + string) \<Rightarrow> threadUnsafeSet \<Rightarrow> 'e + string" where
  "MarshalJSON Marshal s =
     (case marshal_items Marshal s [] of
        Inl err \<Rightarrow> Inl err
      | Inr items \<Rightarrow> Inr (''['' @ Join items '','' @ '']''))"

definition safe_UnmarshalJSON ::
  "(string \<Rightarrow> 'e + jvalue list) \<Rightarrow> state \<Rightarrow> nat \<Rightarrow> string \<Rightarrow> fault + ('e option \<times> state)" where
  "safe_UnmarshalJSON Decode st a p =
     bindF (mutex_RLock a st) (\<lambda>st1.
     bindF (objects_of st1 a) (\<lambda>c.
     bindF (on_table st1 c (\<lambda>t. UnmarshalJSON Decode t p)) (\<lambda>(err, st2).
     bindF (mutex_RUnlock a st2) (\<lambda>st3. Inr (err, st3)))))"

definition safe_MarshalJSON ::
  "(val \<Rightarrow> 'e + string) \<Rightarrow> state \<Rightarrow> nat \<Rightarrow> fault + (('e + string) \<times> state)" where
  "safe_MarshalJSON Marshal st a =
     bindF (mutex_RLock a st) (\<lambda>st1.
     bindF (objects_of st1 a) (\<lambda>c.
     bindF (deref (usets st1) c) (\<lambda>t.
     bindF (mutex_RUnlock a st1) (\<lambda>st2. Inr (MarshalJSON Marshal t, st2)))))"

subsection \<open>A reference codec for a fragment of JSON\<close>

text \<open>
  To run the two methods on concrete bytes, the parameters are instantiated with a
  decoder and an encoder for a fragment of JSON: the grammar of RFC 8259 with strings of
  printable ASCII characters and no escape sequences. On an input outside the fragment
  they answer \<open>OutsideFragment\<close>, which is not an answer of \<open>encoding/json\<close>; no theorem
  below evaluates them there. Like \<open>Decoder.Decode\<close>, the decoder reads one value and
  leaves the bytes after it unread; into a \<open>[]interface{}\<close>, \<open>null\<close> decodes to the nil
  slice and every other non-array value is a type error.
\<close>

datatype json_error = Malformed | NotAnArray | InvalidNumberLiteral | OutsideFragment

definition is_ws :: "char \<Rightarrow> bool" where
  "is_ws c = (c = CHR '' '' \<or> c = CHR 0x09 \<or> c = CHR 0x0A \<or> c = CHR 0x0D)"

definition is_digit :: "char \<Rightarrow> bool" where
  "is_digit c = (c \<in> set ''0123456789'')"

definition is_numchar :: "char \<Rightarrow> bool" where
  "is_numchar c = (c \<in> set ''0123456789+-.eE'')"

definition opt_minus :: "string \<Rightarrow> string" where
  "opt_minus s = (case s of [] \<Rightarrow> [] | c # r \<Rightarrow> if c = CHR ''-'' then r else s)"

definition int_part :: "string \<Rightarrow> string option" where
  "int_part s =
     (case s of
        [] \<Rightarrow> None
      | c # r \<Rightarrow>
          if c = CHR ''0'' then Some r
          else if is_digit c then Some (dropWhile is_digit r)
          else None)"

definition frac_part :: "string \<Rightarrow> string option" where
  "frac_part s =
     (case s of
        [] \<Rightarrow> Some s
      | c # r \<Rightarrow>
          if c = CHR ''.'' then
            (case r of
               [] \<Rightarrow> None
             | d # r' \<Rightarrow> if is_digit d then Some (dropWhile is_digit r') else None)
          else Some s)"

definition exp_part :: "string \<Rightarrow> string option" where
  "exp_part s =
     (case s of
        [] \<Rightarrow> Some s
      | c # r \<Rightarrow>
          if c = CHR ''e'' \<or> c = CHR ''E'' then
            (case (case r of [] \<Rightarrow> r | x # r' \<Rightarrow> if x = CHR ''+'' \<or> x = CHR ''-'' then r' else r) of
               [] \<Rightarrow> None
             | d # r2 \<Rightarrow> if is_digit d then Some (dropWhile is_digit r2) else None)
          else Some s)"

definition valid_number :: "string \<Rightarrow> bool" where
  \<comment> \<open>the number grammar: \<open>-? (0 | [1-9][0-9]*) (. [0-9]+)? ([eE] [+-]? [0-9]+)?\<close>\<close>
  "valid_number s =
     (case int_part (opt_minus s) of
        None \<Rightarrow> False
      | Some s1 \<Rightarrow>
          (case frac_part s1 of
             None \<Rightarrow> False
           | Some s2 \<Rightarrow> (case exp_part s2 of None \<Rightarrow> False | Some s3 \<Rightarrow> s3 = [])))"

fun string_body :: "string \<Rightarrow> string \<Rightarrow> json_error + (string \<times> string)" where
  \<comment> \<open>the characters up to the closing quote, and the input after it\<close>
  "string_body acc [] = Inl Malformed"
| "string_body acc (c # cs) =
     (if c = CHR 0x22 then Inr (acc, cs)
      else if c = CHR 0x5C then Inl OutsideFragment
      else if (of_char c :: nat) < 0x20 then Inl Malformed
      else if (of_char c :: nat) \<ge> 0x80 then Inl OutsideFragment
      else string_body (acc @ [c]) cs)"

definition literal :: "string \<Rightarrow> jvalue \<Rightarrow> string \<Rightarrow> json_error + (jvalue \<times> string)" where
  "literal lit v s =
     (if take (length lit) s = lit then Inr (v, drop (length lit) s) else Inl Malformed)"

fun parse_value :: "unit list \<Rightarrow> string \<Rightarrow> json_error + (jvalue \<times> string)"
  and parse_elems :: "unit list \<Rightarrow> jvalue list \<Rightarrow> string \<Rightarrow> json_error + (jvalue list \<times> string)"
  and parse_members ::
    "unit list \<Rightarrow> (string \<times> jvalue) list \<Rightarrow> string \<Rightarrow> json_error + ((string \<times> jvalue) list \<times> string)"
  where
  "parse_value [] s = Inl OutsideFragment"
| "parse_value (_ # fuel) s =
     (case dropWhile is_ws s of
        [] \<Rightarrow> Inl Malformed
      | c # cs \<Rightarrow>
          if c = CHR ''['' then
            (case dropWhile is_ws cs of
               [] \<Rightarrow> Inl Malformed
             | d # ds \<Rightarrow> if d = CHR '']'' then Inr (JArray [], ds)
                 else (case parse_elems fuel [] (d # ds) of
                         Inl e \<Rightarrow> Inl e
                       | Inr (vs, r) \<Rightarrow> Inr (JArray vs, r)))
          else if c = CHR ''{'' then
            (case dropWhile is_ws cs of
               [] \<Rightarrow> Inl Malformed
             | d # ds \<Rightarrow> if d = CHR ''}'' then Inr (JObject [], ds)
                 else (case parse_members fuel [] (d # ds) of
                         Inl e \<Rightarrow> Inl e
                       | Inr (ms, r) \<Rightarrow> Inr (JObject ms, r)))
          else if c = CHR 0x22 then
            (case string_body [] cs of
               Inl e \<Rightarrow> Inl e
             | Inr (x, r) \<Rightarrow> Inr (JString x, r))
          else if c = CHR ''n'' then literal ''null'' JNull (c # cs)
          else if c = CHR ''t'' then literal ''true'' (JBool True) (c # cs)
          else if c = CHR ''f'' then literal ''false'' (JBool False) (c # cs)
          else if c = CHR ''-'' \<or> is_digit c then
            (if valid_number (takeWhile is_numchar (c # cs))
             then Inr (JNumber (takeWhile is_numchar (c # cs)), dropWhile is_numchar (c # cs))
             else Inl Malformed)
          else Inl Malformed)"
| "parse_elems [] acc s = Inl OutsideFragment"
| "parse_elems (_ # fuel) acc s =
     (case parse_value fuel s of
        Inl e \<Rightarrow> Inl e
      | Inr (v, r) \<Rightarrow>
          (case dropWhile is_ws r of
             [] \<Rightarrow> Inl Malformed
           | c # cs \<Rightarrow>
               if c = CHR '','' then parse_elems fuel (acc @ [v]) cs
               else if c = CHR '']'' then Inr (acc @ [v], cs)
               else Inl Malformed))"
| "parse_members [] acc s = Inl OutsideFragment"
| "parse_members (_ # fuel) acc s =
     (case dropWhile is_ws s of
        [] \<Rightarrow> Inl Malformed
      | q # qs \<Rightarrow>
          if q \<noteq> CHR 0x22 then Inl Malformed
          else
            (case string_body [] qs of
               Inl e \<Rightarrow> Inl e
             | Inr (k, r) \<Rightarrow>
                 (case dropWhile is_ws r of
                    [] \<Rightarrow> Inl Malformed
                  | d # ds \<Rightarrow>
                      if d \<noteq> CHR '':'' then Inl Malformed
                      else
                        (case parse_value fuel ds of
                           Inl e \<Rightarrow> Inl e
                         | Inr (v, r2) \<Rightarrow>
                             (case dropWhile is_ws r2 of
                                [] \<Rightarrow> Inl Malformed
                              | c # cs \<Rightarrow>
                                  if c = CHR '','' then parse_members fuel (acc @ [(k, v)]) cs
                                  else if c = CHR ''}'' then Inr (acc @ [(k, v)], cs)
                                  else Inl Malformed)))))"

fun fuel_for :: "string \<Rightarrow> unit list" where
  "fuel_for [] = [(), ()]"
| "fuel_for (_ # cs) = () # () # fuel_for cs"

definition json_Decode :: "string \<Rightarrow> json_error + jvalue list" where
  "json_Decode b =
     (case parse_value (fuel_for b) b of
        Inl e \<Rightarrow> Inl e
      | Inr (v, _) \<Rightarrow>
          (case v of JArray i \<Rightarrow> Inr i | JNull \<Rightarrow> Inr [] | _ \<Rightarrow> Inl NotAnArray))"

fun show_nat :: "nat \<Rightarrow> string" where
  "show_nat n =
     (if n < 10 then [''0123456789'' ! n]
      else show_nat (n div 10) @ [''0123456789'' ! (n mod 10)])"

definition show_int :: "int \<Rightarrow> string" where
  "show_int i = (if i < 0 then CHR ''-'' # show_nat (nat (- i)) else show_nat (nat i))"

definition plain_char :: "char \<Rightarrow> bool" where
  \<comment> \<open>the characters the encoder writes as they are\<close>
  "plain_char c =
     ((0x20 :: nat) \<le> of_char c \<and> (of_char c :: nat) < 0x80 \<and> c \<noteq> CHR 0x22 \<and> c \<noteq> CHR 0x5C \<and>
      c \<noteq> CHR ''<'' \<and> c \<noteq> CHR ''>'' \<and> c \<noteq> CHR ''&'')"

text \<open>
  The encoder takes the encoding of a pointer element as a parameter (a pointer to a set
  is encoded by that set's own \<open>MarshalJSON\<close>). A \<open>json.Number\<close> is written as its text,
  \<open>0\<close> when empty, and refused when it is not a number literal; the struct
  \<open>OrderedPair\<close> is an object with the keys \<open>First\<close> and \<open>Second\<close>.
\<close>

fun json_Marshal :: "(ref \<Rightarrow> json_error + string) \<Rightarrow> val \<Rightarrow> json_error + string" where
  "json_Marshal ptr VNil = Inr ''null''"
| "json_Marshal ptr (VBool b) = Inr (if b then ''true'' else ''false'')"
| "json_Marshal ptr (VInt n) = Inr (show_int n)"
| "json_Marshal ptr (VStr x) =
     (if list_all plain_char x then Inr (CHR 0x22 # x @ [CHR 0x22]) else Inl OutsideFragment)"
| "json_Marshal ptr (VNumber n) =
     (if valid_number (if n = [] then ''0'' else n)
      then Inr (if n = [] then ''0'' else n) else Inl InvalidNumberLiteral)"
| "json_Marshal ptr (VPtr r) = ptr r"
| "json_Marshal ptr (OrderedPair x y) =
     (case json_Marshal ptr x of
        Inl e \<Rightarrow> Inl e
      | Inr bx \<Rightarrow>
          (case json_Marshal ptr y of
             Inl e \<Rightarrow> Inl e
           | Inr by \<Rightarrow>
               Inr (CHR ''{'' # CHR 0x22 # ''First'' @ CHR 0x22 # CHR '':'' # bx @
                    CHR '','' # CHR 0x22 # ''Second'' @ CHR 0x22 # CHR '':'' # by @ ''}'')))"

text \<open>The representation invariant of the store: every table has distinct keys, and every
  guarded set's \<open>objects\<close> is an allocated table.\<close>

definition wf_state :: "state \<Rightarrow> bool" where
  "wf_state st =
     (list_all distinct (usets st) \<and> list_all (\<lambda>s. objects s < length (usets st)) (ssets st))"

definition unlocked :: "state \<Rightarrow> nat \<Rightarrow> bool" where
  "unlocked st a = (a < length (ssets st) \<and> mutex (ssets st ! a) = \<lparr>readers = 0, writer = False\<rparr>)"

definition rlockable :: "state \<Rightarrow> nat \<Rightarrow> bool" where
  \<comment> \<open>the guarded set \<open>a\<close> exists and its write lock is not held: \<open>RLock\<close> is granted\<close>
  "rlockable st a = (a < length (ssets st) \<and> \<not> writer (mutex (ssets st ! a)))"

definition fresh_safe :: "nat \<Rightarrow> threadSafeSet" where
  \<comment> \<open>\<open>&threadSafeSet{objects: ...}\<close>: the zero mutex is unlocked\<close>
  "fresh_safe c = \<lparr>objects = c, mutex = \<lparr>readers = 0, writer = False\<rparr>\<rparr>"

definition rd :: "(nat \<Rightarrow> nat) \<Rightarrow> threadSafeSet \<Rightarrow> threadSafeSet" where
  \<comment> \<open>a guarded set with its count of read holds changed\<close>
  "rd f s = s\<lparr>mutex := (mutex s)\<lparr>readers := f (readers (mutex s))\<rparr>\<rparr>"

text \<open>Two guarded sets \<open>{1, "a"}\<close> and \<open>{1, 5}\<close> with free locks, and two empty unguarded
  sets; used to run the operations on concrete operands.\<close>

definition example_state :: state where
  "example_state =
     \<lparr>usets = [[VInt 1, VStr ''a''], [VInt 1, VInt 5], [], []],
      ssets = [\<lparr>objects = 0, mutex = \<lparr>readers = 0, writer = False\<rparr>\<rparr>,
               \<lparr>objects = 1, mutex = \<lparr>readers = 0, writer = False\<rparr>\<rparr>],
      trace = []\<rparr>"

text \<open>The same store while another goroutine holds a read lock on the first set.\<close>

definition busy_state :: state where
  "busy_state =
     \<lparr>usets = [[VInt 1, VStr ''a''], [VInt 1, VInt 5], [], []],
      ssets = [\<lparr>objects = 0, mutex = \<lparr>readers = 1, writer = False\<rparr>\<rparr>,
               \<lparr>objects = 1, mutex = \<lparr>readers = 0, writer = False\<rparr>\<rparr>],
      trace = []\<rparr>"


text \<open>What purity of a two-operand method means in the store: the call returns a set of
  the receiver's variant at an address that did not exist before, every table and every
  guarded set that existed is unchanged, and a new guarded set owns a new table.\<close>

definition pure_unguarded :: "state \<Rightarrow> fault + (ref \<times> state) \<Rightarrow> bool" where
  "pure_unguarded st res =
     (case res of
        Inl _ \<Rightarrow> False
      | Inr (r, st') \<Rightarrow>
          (case r of
             S _ \<Rightarrow> False
           | U c \<Rightarrow>
               length (usets st) \<le> c \<and> c < length (usets st') \<and>
               take (length (usets st)) (usets st') = usets st \<and> ssets st' = ssets st))"

definition pure_guarded :: "state \<Rightarrow> fault + (ref \<times> state) \<Rightarrow> bool" where
  "pure_guarded st res =
     (case res of
        Inl _ \<Rightarrow> False
      | Inr (r, st') \<Rightarrow>
          (case r of
             U _ \<Rightarrow> False
           | S g \<Rightarrow>
               length (ssets st) \<le> g \<and> g < length (ssets st') \<and>
               take (length (usets st)) (usets st') = usets st \<and>
               take (length (ssets st)) (ssets st') = ssets st \<and>
               length (usets st) \<le> objects (ssets st' ! g) \<and>
               objects (ssets st' ! g) < length (usets st')))"

text \<open>For the power set: the table of a set of pointers to unguarded sets, the tables of
  the subsets after one more element (each subset so far, and each of them with the
  element added), and what the outer loop maintains: \<open>powSet\<close> is the set of the distinct
  pointers \<open>ks\<close>, each to an allocated table without repeated keys.\<close>

definition ptrs :: "nat list \<Rightarrow> val list" where
  "ptrs ks = map (\<lambda>k. VPtr (U k)) ks"

definition extend_family :: "val \<Rightarrow> threadUnsafeSet list \<Rightarrow> threadUnsafeSet list" where
  "extend_family item C = C @ map (\<lambda>t. snd (Add t item)) C"

definition pow_inv :: "state \<Rightarrow> nat \<Rightarrow> nat list \<Rightarrow> bool" where
  "pow_inv st ps ks =
     (ps < length (usets st) \<and> usets st ! ps = ptrs ks \<and> distinct ks \<and>
      list_all (\<lambda>k. k < length (usets st) \<and> distinct (usets st ! k)) ks)"

definition grows :: "state \<Rightarrow> state \<Rightarrow> bool" where
  \<comment> \<open>\<open>st'\<close> is \<open>st\<close> with new tables allocated and nothing else changed\<close>
  "grows st st' =
     (take (length (usets st)) (usets st') = usets st \<and> ssets st' = ssets st \<and>
      trace st' = trace st)"

text \<open>The store after one round of the outer loop of \<open>PowerSet\<close>.\<close>

definition after_round :: "val \<Rightarrow> nat list \<Rightarrow> state \<Rightarrow> state" where
  "after_round item ks st =
     st\<lparr>usets := usets st @ map (\<lambda>k. snd (Add (usets st ! k) item)) ks @
          [ptrs [length (usets st)..<length (usets st) + length ks],
           ptrs (ks @ [length (usets st)..<length (usets st) + length ks])]\<rparr>"

definition gptrs :: "nat list \<Rightarrow> val list" where
  \<comment> \<open>the table of a set of pointers to guarded sets\<close>
  "gptrs gs = map (\<lambda>g. VPtr (S g)) gs"

text \<open>What C4 says of the table \<open>members\<close> a \<open>PowerSet\<close> call returned for the source
  table \<open>A\<close>: it has \<open>2 ^ |A|\<close> keys, no key twice; the sets its keys point to are
  exactly the subsets of \<open>A\<close>, pairwise different, and exactly the family the spec's
  algorithm builds; one of them is empty and one has the elements of \<open>A\<close>.\<close>

definition power_set_of :: "state \<Rightarrow> val list \<Rightarrow> val list \<Rightarrow> bool" where
  "power_set_of st' members A =
     (Cardinality members = 2 ^ length A \<and> distinct members \<and>
      pointee st' ` set members = Pow (set A) \<and>
      pointee st' ` set members = PowerSet_spec A \<and>
      card (pointee st' ` set members) = 2 ^ length A \<and>
      (\<exists>e \<in> set members. pointee st' e = {}) \<and>
      (\<exists>f \<in> set members. pointee st' f = set A))"

text \<open>For the round trip through the reference codec: the elements it is proved for
  (\<open>nil\<close>, booleans, strings of plain characters, \<open>json.Number\<close> values that hold a number
  literal, and \<open>OrderedPair\<close>s of such values), the text the encoder writes for them, the
  value the decoder reads back from that text, and the elements that are not dropped by
  \<open>UnmarshalJSON\<close>.\<close>

fun encodable :: "val \<Rightarrow> bool" where
  "encodable VNil = True"
| "encodable (VBool _) = True"
| "encodable (VInt _) = False"
| "encodable (VStr x) = list_all plain_char x"
| "encodable (VNumber n) = valid_number n"
| "encodable (VPtr _) = False"
| "encodable (OrderedPair x y) = (encodable x \<and> encodable y)"

fun json_text :: "val \<Rightarrow> string" where
  "json_text VNil = ''null''"
| "json_text (VBool b) = (if b then ''true'' else ''false'')"
| "json_text (VInt n) = show_int n"
| "json_text (VStr x) = CHR 0x22 # x @ [CHR 0x22]"
| "json_text (VNumber n) = n"
| "json_text (VPtr _) = []"
| "json_text (OrderedPair x y) =
     CHR ''{'' # CHR 0x22 # ''First'' @ CHR 0x22 # CHR '':'' # json_text x @
     CHR '','' # CHR 0x22 # ''Second'' @ CHR 0x22 # CHR '':'' # json_text y @ ''}''"

fun json_of :: "val \<Rightarrow> jvalue" where
  "json_of VNil = JNull"
| "json_of (VBool b) = JBool b"
| "json_of (VInt n) = JNumber (show_int n)"
| "json_of (VStr x) = JString x"
| "json_of (VNumber n) = JNumber n"
| "json_of (VPtr _) = JArray []"
| "json_of (OrderedPair x y) = JObject [(''First'', json_of x), (''Second'', json_of y)]"

fun is_scalar :: "val \<Rightarrow> bool" where
  "is_scalar (OrderedPair _ _) = False"
| "is_scalar (VPtr _) = False"
| "is_scalar _ = True"

fun weight :: "val \<Rightarrow> nat" where
  \<comment> \<open>fuel that suffices to parse the text of the value\<close>
  "weight (OrderedPair x y) = 3 + weight x + weight y"
| "weight _ = 1"

definition delimiter :: "char \<Rightarrow> bool" where
  "delimiter c = (c = CHR '','' \<or> c = CHR '']'' \<or> c = CHR ''}'')"

text \<open>An element of the set being serialized may also be a pointer to a set whose own
  elements are of the kind above: the encoder's parameter then answers what that set's
  \<open>MarshalJSON\<close> returns, a JSON array. \<open>elems r\<close> lists the elements of the set at \<open>r\<close>.\<close>

definition array_text :: "val list \<Rightarrow> string" where
  "array_text vs = CHR ''['' # Join (map json_text vs) '','' @ '']''"

fun member_ok :: "(ref \<Rightarrow> json_error + string) \<Rightarrow> (ref \<Rightarrow> val list) \<Rightarrow> val \<Rightarrow> bool" where
  "member_ok ptr elems (VPtr r) =
     (list_all encodable (elems r) \<and> ptr r = MarshalJSON (json_Marshal ptr) (elems r))"
| "member_ok ptr elems v = encodable v"

fun member_text :: "(ref \<Rightarrow> val list) \<Rightarrow> val \<Rightarrow> string" where
  "member_text elems (VPtr r) = array_text (elems r)"
| "member_text elems v = json_text v"

fun member_json :: "(ref \<Rightarrow> val list) \<Rightarrow> val \<Rightarrow> jvalue" where
  "member_json elems (VPtr r) = JArray (map json_of (elems r))"
| "member_json elems v = json_of v"

fun member_weight :: "(ref \<Rightarrow> val list) \<Rightarrow> val \<Rightarrow> nat" where
  "member_weight elems (VPtr r) = Suc (sum_list (map (\<lambda>v. Suc (weight v)) (elems r)))"
| "member_weight elems v = weight v"


section \<open>Basic facts\<close>

lemma bindF_Inr [simp]: "bindF (Inr x) f = f x"
  by (simp add: bindF_def)

lemma bindF_Inl [simp]: "bindF (Inl e) f = Inl e"
  by (simp add: bindF_def)

lemma deref_valid [simp]: "a < length xs \<Longrightarrow> deref xs a = Inr (xs ! a)"
  by (simp add: deref_def)

lemma deref_invalid [simp]: "\<not> a < length xs \<Longrightarrow> deref xs a = Inl PanicNilDeref"
  by (simp add: deref_def)

lemma rd_simps [simp]:
  "objects (rd f s) = objects s"
  "writer (mutex (rd f s)) = writer (mutex s)"
  "readers (mutex (rd f s)) = f (readers (mutex s))"
  by (simp_all add: rd_def)

lemma rd_rd [simp]: "rd f (rd g s) = rd (f \<circ> g) s"
  by (simp add: rd_def)

lemma rd_id: "(\<And>n. f n = n) \<Longrightarrow> rd f s = s"
  by (simp add: rd_def)

lemma upd_mutex_id: "mutex (xs ! a) = m \<Longrightarrow> xs[a := (xs ! a)\<lparr>mutex := m\<rparr>] = xs"
  by (metis list_update_id threadSafeSet.surjective threadSafeSet.update_convs(2))

lemma example_state_wf: "wf_state example_state"
  by (simp add: example_state_def wf_state_def)

lemma example_state_unlocked: "unlocked example_state 0" "unlocked example_state 1"
  by (simp_all add: example_state_def unlocked_def)

section \<open>Add\<close>


lemma Add_set: "set (snd (Add s v)) = insert v (set s)"
  by (auto simp: Add_def)

lemma Add_distinct: "distinct s \<Longrightarrow> distinct (snd (Add s v))"
  by (simp add: Add_def)





section \<open>Pop\<close>






section \<open>Tables built by the loops\<close>

lemma Contains_single [simp]: "Contains t [e] = (e \<in> set t)"
  by simp

lemma add_all_eq:
  "distinct xs \<Longrightarrow> add_all xs acc = acc @ filter (\<lambda>x. x \<notin> set acc) xs"
proof (induction xs arbitrary: acc)
  case Nil
  then show ?case by (simp add: add_all_def)
next
  case (Cons x xs)
  have step: "add_all (x # xs) acc = add_all xs (snd (Add acc x))"
    by (simp add: add_all_def)
  from Cons.prems have x: "x \<notin> set xs" and d: "distinct xs" by simp_all
  have f: "filter (\<lambda>y. y \<noteq> x \<and> y \<notin> set acc) xs = filter (\<lambda>y. y \<notin> set acc) xs"
    using x by (intro filter_cong) auto
  show ?case
    using Cons.IH [OF d, of "snd (Add acc x)"] f
    by (auto simp: step Add_def conj_commute)
qed

lemma add_all_empty: "distinct xs \<Longrightarrow> add_all xs newThreadUnsafeSet = xs"
  by (simp add: add_all_eq newThreadUnsafeSet_def)

lemma add_common_eq:
  "distinct xs \<Longrightarrow>
   add_common xs other acc = acc @ filter (\<lambda>x. x \<in> set other \<and> x \<notin> set acc) xs"
proof (induction xs arbitrary: acc)
  case Nil
  then show ?case by (simp add: add_common_def)
next
  case (Cons x xs)
  have step: "add_common (x # xs) other acc =
      add_common xs other (if x \<in> set other then snd (Add acc x) else acc)"
    by (simp add: add_common_def)
  from Cons.prems have x: "x \<notin> set xs" and d: "distinct xs" by simp_all
  have f: "filter (\<lambda>y. y \<in> set other \<and> y \<noteq> x \<and> y \<notin> set acc) xs =
           filter (\<lambda>y. y \<in> set other \<and> y \<notin> set acc) xs"
    using x by (intro filter_cong) auto
  show ?case
    using Cons.IH [OF d] f
    by (auto simp: step Add_def conj_commute)
qed

lemma add_missing_unsafe:
  assumes "b < length (usets st)" "distinct xs"
  shows "add_missing (U b) xs d st =
           Inr (d @ filter (\<lambda>x. x \<notin> set (usets st ! b) \<and> x \<notin> set d) xs, st)"
  using assms(2)
proof (induction xs arbitrary: d)
  case Nil
  then show ?case by simp
next
  case (Cons x xs)
  from Cons.prems have x: "x \<notin> set xs" and dx: "distinct xs" by simp_all
  have f: "filter (\<lambda>y. y \<notin> set (usets st ! b) \<and> y \<noteq> x \<and> y \<notin> set d) xs =
           filter (\<lambda>y. y \<notin> set (usets st ! b) \<and> y \<notin> set d) xs"
    using x by (intro filter_cong) auto
  show ?case
    using Cons.IH [OF dx] f assms(1)
    by (auto simp: Add_def conj_commute)
qed


lemma add_each_unsafe:
  assumes "c < length (usets st)"
  shows "add_each (U c) es st = Inr (st\<lparr>usets := (usets st)[c := add_all es (usets st ! c)]\<rparr>)"
  using assms
proof (induction es arbitrary: st)
  case Nil
  then show ?case by (simp add: add_all_def)
next
  case (Cons e es)
  let ?st1 = "st\<lparr>usets := (usets st)[c := snd (Add (usets st ! c) e)]\<rparr>"
  have 1: "on_table st c (\<lambda>t. Add t e) = Inr (fst (Add (usets st ! c) e), ?st1)"
    using Cons.prems by (simp add: on_table_def split: prod.splits)
  have 2: "c < length (usets ?st1)" using Cons.prems by simp
  show ?case
    using Cons.IH [OF 2] Cons.prems by (simp add: 1 add_all_def)
qed

lemma distinct_pairs: "distinct s \<Longrightarrow> distinct t \<Longrightarrow> distinct (pairs s t)"
  unfolding pairs_def
  by (induction s) (auto simp: distinct_map inj_on_def)

lemma set_pairs: "set (pairs s t) = (\<lambda>(i, j). OrderedPair i j) ` (set s \<times> set t)"
  by (auto simp: pairs_def)

lemma length_pairs: "length (pairs s t) = length s * length t"
  by (induction s) (simp_all add: pairs_def)

section \<open>The unguarded operations on two unguarded sets\<close>

lemma unsafe_Union_spec:
  assumes "a < length (usets st)" "b < length (usets st)"
    and "distinct (usets st ! a)" "distinct (usets st ! b)"
  shows "unsafe_Union st a (U b) =
     Inr (U (length (usets st)),
          st\<lparr>usets := usets st @
               [usets st ! a @ filter (\<lambda>x. x \<notin> set (usets st ! a)) (usets st ! b)]\<rparr>)"
proof -
  have 1: "add_all (usets st ! a) newThreadUnsafeSet = usets st ! a"
    using assms(3) by (rule add_all_empty)
  have 2: "add_all (usets st ! b) (usets st ! a) =
           usets st ! a @ filter (\<lambda>x. x \<notin> set (usets st ! a)) (usets st ! b)"
    using assms(4) by (rule add_all_eq)
  show ?thesis
    using assms(1,2) by (simp add: unsafe_Union_def alloc_unsafe_def 1 2)
qed

lemma unsafe_Intersect_spec:
  assumes "a < length (usets st)" "b < length (usets st)"
    and "distinct (usets st ! a)" "distinct (usets st ! b)"
  shows "unsafe_Intersect st a (U b) =
     Inr (U (length (usets st)),
          st\<lparr>usets := usets st @
               [if length (usets st ! a) < length (usets st ! b)
                then filter (\<lambda>x. x \<in> set (usets st ! b)) (usets st ! a)
                else filter (\<lambda>x. x \<in> set (usets st ! a)) (usets st ! b)]\<rparr>)"
  using assms
  by (simp add: unsafe_Intersect_def alloc_unsafe_def add_common_eq newThreadUnsafeSet_def
      Cardinality_def)

lemma unsafe_Difference_spec:
  assumes "a < length (usets st)" "b < length (usets st)"
    and "distinct (usets st ! a)"
  shows "unsafe_Difference st a (U b) =
     Inr (U (length (usets st)),
          st\<lparr>usets := usets st @ [filter (\<lambda>x. x \<notin> set (usets st ! b)) (usets st ! a)]\<rparr>)"
  using assms
  by (simp add: unsafe_Difference_def alloc_unsafe_def add_missing_unsafe newThreadUnsafeSet_def)

lemma unsafe_SymmetricDifference_spec:
  assumes a: "a < length (usets st)" and b: "b < length (usets st)"
    and da: "distinct (usets st ! a)" and db: "distinct (usets st ! b)"
  shows "unsafe_SymmetricDifference st a (U b) =
     Inr (U (length (usets st) + 2),
          st\<lparr>usets := usets st @
               [filter (\<lambda>x. x \<notin> set (usets st ! b)) (usets st ! a),
                filter (\<lambda>x. x \<notin> set (usets st ! a)) (usets st ! b),
                filter (\<lambda>x. x \<notin> set (usets st ! b)) (usets st ! a) @
                filter (\<lambda>x. x \<notin> set (usets st ! a)) (usets st ! b)]\<rparr>)"
proof -
  let ?s = "usets st ! a" and ?t = "usets st ! b"
  let ?d1 = "filter (\<lambda>x. x \<notin> set ?t) ?s" and ?d2 = "filter (\<lambda>x. x \<notin> set ?s) ?t"
  let ?n = "length (usets st)"
  let ?st1 = "st\<lparr>usets := usets st @ [?d1]\<rparr>"
  let ?st2 = "?st1\<lparr>usets := usets ?st1 @ [?d2]\<rparr>"
  have 1: "unsafe_Difference st a (U b) = Inr (U ?n, ?st1)"
    using a b da by (rule unsafe_Difference_spec)
  have 2: "unsafe_Difference ?st1 b (U a) = Inr (U (Suc ?n), ?st2)"
    using unsafe_Difference_spec [of b ?st1 a] a b db by (simp add: nth_append)
  have f: "filter (\<lambda>x. x \<notin> set ?d1) ?d2 = ?d2"
    by (intro filter_True) auto
  have n1: "usets ?st2 ! ?n = ?d1" by (simp add: nth_append)
  have n2: "usets ?st2 ! Suc ?n = ?d2" by (simp add: nth_append)
  have 3: "unsafe_Union ?st2 ?n (U (Suc ?n)) =
      Inr (U (?n + 2), ?st2\<lparr>usets := usets ?st2 @ [?d1 @ ?d2]\<rparr>)"
  proof -
    have "unsafe_Union ?st2 ?n (U (Suc ?n)) =
      Inr (U (length (usets ?st2)),
           ?st2\<lparr>usets := usets ?st2 @
             [usets ?st2 ! ?n @ filter (\<lambda>x. x \<notin> set (usets ?st2 ! ?n)) (usets ?st2 ! Suc ?n)]\<rparr>)"
      by (rule unsafe_Union_spec) (use da db in \<open>simp_all only: n1 n2 distinct_filter\<close>, simp_all)
    then show ?thesis by (simp only: n1 n2 f) simp
  qed
  have "unsafe_SymmetricDifference st a (U b) =
      Inr (U (?n + 2), ?st2\<lparr>usets := usets ?st2 @ [?d1 @ ?d2]\<rparr>)"
    unfolding unsafe_SymmetricDifference_def
    by (simp only: 1 2 3 bindF_Inr prod.case Set_Difference.simps Set_Union.simps)
  then show ?thesis by simp
qed

lemma unsafe_CartesianProduct_spec:
  assumes "a < length (usets st)" "b < length (usets st)"
    and "distinct (usets st ! a)" "distinct (usets st ! b)"
  shows "unsafe_CartesianProduct st a (U b) =
     Inr (U (length (usets st)),
          st\<lparr>usets := usets st @ [pairs (usets st ! a) (usets st ! b)]\<rparr>)"
  using assms
  by (simp add: unsafe_CartesianProduct_def NewThreadUnsafeSet_def alloc_unsafe_def
      add_each_unsafe nth_append add_all_empty [unfolded newThreadUnsafeSet_def]
      newThreadUnsafeSet_def distinct_pairs)




section \<open>Locks\<close>

lemma mutex_RLock_ok:
  "a < length (ssets st) \<Longrightarrow> \<not> writer (mutex (ssets st ! a)) \<Longrightarrow>
   mutex_RLock a st =
     Inr (st\<lparr>ssets := (ssets st)[a := rd Suc (ssets st ! a)], trace := trace st @ [EvRLock a]\<rparr>)"
  by (simp add: mutex_RLock_def set_mutex_def rd_def)

lemma mutex_RUnlock_ok:
  "a < length (ssets st) \<Longrightarrow> readers (mutex (ssets st ! a)) \<noteq> 0 \<Longrightarrow>
   mutex_RUnlock a st =
     Inr (st\<lparr>ssets := (ssets st)[a := rd (\<lambda>n. n - 1) (ssets st ! a)],
            trace := trace st @ [EvRUnlock a]\<rparr>)"
  by (simp add: mutex_RUnlock_def set_mutex_def rd_def)

lemma mutex_RUnlock_fatal:
  "a < length (ssets st) \<Longrightarrow> readers (mutex (ssets st ! a)) = 0 \<Longrightarrow>
   mutex_RUnlock a st = Inl FatalRUnlock"
  by (simp add: mutex_RUnlock_def)

lemma relock_restore:
  assumes "a < length xs" "b < length xs"
  shows "(((xs[a := rd Suc (xs ! a)])[b := rd Suc (xs[a := rd Suc (xs ! a)] ! b)] @ new)
            [b := rd (\<lambda>n. n - 1)
                    (((xs[a := rd Suc (xs ! a)])[b := rd Suc (xs[a := rd Suc (xs ! a)] ! b)] @ new) ! b)])
            [a := rd (\<lambda>n. n - 1)
                    (((xs[a := rd Suc (xs ! a)])[b := rd Suc (xs[a := rd Suc (xs ! a)] ! b)] @ new)
                       [b := rd (\<lambda>n. n - 1)
                               (((xs[a := rd Suc (xs ! a)])
                                   [b := rd Suc (xs[a := rd Suc (xs ! a)] ! b)] @ new) ! b)] ! a)]
         = xs @ new"
  using assms
  by (auto simp: list_eq_iff_nth_eq nth_list_update nth_append rd_id comp_def)

text \<open>A call that takes the read locks of \<open>a\<close> and \<open>b\<close>, runs a body that only extends the
  store, and releases \<open>b\<close> and then \<open>a\<close>.\<close>

lemma rlocked2_ok:
  assumes a: "a < length (ssets st)" and b: "b < length (ssets st)"
    and wa: "\<not> writer (mutex (ssets st ! a))" and wb: "\<not> writer (mutex (ssets st ! b))"
    and body: "\<And>st2. usets st2 = usets st \<Longrightarrow> length (ssets st2) = length (ssets st) \<Longrightarrow>
                 body st2 (objects (ssets st ! a)) (U (objects (ssets st ! b))) =
                   Inr (r, st2\<lparr>usets := us, ssets := ssets st2 @ new\<rparr>)"
  shows "rlocked2 st a b [b, a] body =
           Inr (r, st\<lparr>usets := us, ssets := ssets st @ new,
                      trace := trace st @ [EvRLock a, EvRLock b, EvRUnlock b, EvRUnlock a]\<rparr>)"
proof -
  let ?st1 = "st\<lparr>ssets := (ssets st)[a := rd Suc (ssets st ! a)], trace := trace st @ [EvRLock a]\<rparr>"
  let ?st2 = "?st1\<lparr>ssets := (ssets ?st1)[b := rd Suc (ssets ?st1 ! b)],
                  trace := trace ?st1 @ [EvRLock b]\<rparr>"
  have 1: "mutex_RLock a st = Inr ?st1" using a wa by (rule mutex_RLock_ok)
  have 2: "mutex_RLock b ?st1 = Inr ?st2"
    using a b wb by (intro mutex_RLock_ok) (auto simp: nth_list_update)
  have oa: "objects_of ?st2 a = Inr (objects (ssets st ! a))"
    using a b by (auto simp: objects_of_def nth_list_update)
  have ob: "objects_of ?st2 b = Inr (objects (ssets st ! b))"
    using a b by (auto simp: objects_of_def nth_list_update)
  let ?st3 = "?st2\<lparr>usets := us, ssets := ssets ?st2 @ new\<rparr>"
  have 3: "body ?st2 (objects (ssets st ! a)) (U (objects (ssets st ! b))) = Inr (r, ?st3)"
    by (rule body) simp_all
  let ?st4 = "?st3\<lparr>ssets := (ssets ?st3)[b := rd (\<lambda>n. n - 1) (ssets ?st3 ! b)],
                  trace := trace ?st3 @ [EvRUnlock b]\<rparr>"
  have 4: "mutex_RUnlock b ?st3 = Inr ?st4"
    using a b by (intro mutex_RUnlock_ok) (auto simp: nth_list_update nth_append)
  let ?st5 = "?st4\<lparr>ssets := (ssets ?st4)[a := rd (\<lambda>n. n - 1) (ssets ?st4 ! a)],
                  trace := trace ?st4 @ [EvRUnlock a]\<rparr>"
  have 5: "mutex_RUnlock a ?st4 = Inr ?st5"
    using a b by (intro mutex_RUnlock_ok) (auto simp: nth_list_update nth_append)
  have "rlocked2 st a b [b, a] body = Inr (r, ?st5)"
    unfolding rlocked2_def
    by (simp only: 1 2 oa ob 3 4 5 bindF_Inr run_deferred.simps prod.case)
  moreover have "?st5 = st\<lparr>usets := us, ssets := ssets st @ new,
                      trace := trace st @ [EvRLock a, EvRLock b, EvRUnlock b, EvRUnlock a]\<rparr>"
    using relock_restore [OF a b, of new] by simp
  ultimately show ?thesis by simp
qed

text \<open>The same call with the release of \<open>a\<close> deferred twice, on two different sets whose
  locks were free: the second release finds \<open>a\<close> unlocked.\<close>

lemma rlocked2_double_release:
  assumes a: "a < length (ssets st)" and b: "b < length (ssets st)" and ab: "a \<noteq> b"
    and wa: "\<not> writer (mutex (ssets st ! a))" and wb: "\<not> writer (mutex (ssets st ! b))"
    and ra: "readers (mutex (ssets st ! a)) = 0"
    and body: "\<And>st2. usets st2 = usets st \<Longrightarrow> length (ssets st2) = length (ssets st) \<Longrightarrow>
                 body st2 (objects (ssets st ! a)) (U (objects (ssets st ! b))) =
                   Inr (r, st2\<lparr>usets := us, ssets := ssets st2 @ new\<rparr>)"
  shows "rlocked2 st a b [a, a] body = Inl FatalRUnlock"
proof -
  let ?st1 = "st\<lparr>ssets := (ssets st)[a := rd Suc (ssets st ! a)], trace := trace st @ [EvRLock a]\<rparr>"
  let ?st2 = "?st1\<lparr>ssets := (ssets ?st1)[b := rd Suc (ssets ?st1 ! b)],
                  trace := trace ?st1 @ [EvRLock b]\<rparr>"
  have 1: "mutex_RLock a st = Inr ?st1" using a wa by (rule mutex_RLock_ok)
  have 2: "mutex_RLock b ?st1 = Inr ?st2"
    using a b wb by (intro mutex_RLock_ok) (auto simp: nth_list_update)
  have oa: "objects_of ?st2 a = Inr (objects (ssets st ! a))"
    using a b by (auto simp: objects_of_def nth_list_update)
  have ob: "objects_of ?st2 b = Inr (objects (ssets st ! b))"
    using a b by (auto simp: objects_of_def nth_list_update)
  let ?st3 = "?st2\<lparr>usets := us, ssets := ssets ?st2 @ new\<rparr>"
  have 3: "body ?st2 (objects (ssets st ! a)) (U (objects (ssets st ! b))) = Inr (r, ?st3)"
    by (rule body) simp_all
  let ?st4 = "?st3\<lparr>ssets := (ssets ?st3)[a := rd (\<lambda>n. n - 1) (ssets ?st3 ! a)],
                  trace := trace ?st3 @ [EvRUnlock a]\<rparr>"
  have 4: "mutex_RUnlock a ?st3 = Inr ?st4"
    using a b by (intro mutex_RUnlock_ok) (auto simp: nth_list_update nth_append)
  have 5: "mutex_RUnlock a ?st4 = Inl FatalRUnlock"
    using a b ab ra by (intro mutex_RUnlock_fatal) (auto simp: nth_list_update nth_append)
  show ?thesis
    unfolding rlocked2_def
    by (simp only: 1 2 oa ob 3 4 5 bindF_Inr bindF_Inl run_deferred.simps prod.case)
qed

lemma wrap_safe_ok:
  assumes "f st ca other = Inr (U c, st\<lparr>usets := us\<rparr>)"
  shows "wrap_safe f st ca other =
     Inr (S (length (ssets st)),
          st\<lparr>usets := us,
             ssets := ssets st @ [\<lparr>objects = c, mutex = \<lparr>readers = 0, writer = False\<rparr>\<rparr>]\<rparr>)"
  by (simp add: wrap_safe_def assms alloc_safe_def)

section \<open>The guarded operations on two guarded sets\<close>

lemma wf_table:
  assumes "wf_state st" "a < length (ssets st)"
  shows "objects (ssets st ! a) < length (usets st)" "distinct (table_of st a)"
  using assms by (simp_all add: wf_state_def list_all_length table_of_def)

lemma safe_algebra_ok:
  assumes ra: "rlockable st a" and rb: "rlockable st b"
    and spec: "\<And>st2. usets st2 = usets st \<Longrightarrow>
                 f st2 (objects (ssets st ! a)) (U (objects (ssets st ! b))) =
                   Inr (U c, st2\<lparr>usets := us\<rparr>)"
  shows "rlocked2 st a b [b, a] (wrap_safe f) =
     Inr (S (length (ssets st)),
          st\<lparr>usets := us, ssets := ssets st @ [fresh_safe c],
             trace := trace st @ [EvRLock a, EvRLock b, EvRUnlock b, EvRUnlock a]\<rparr>)"
proof (rule rlocked2_ok)
  show "a < length (ssets st)" "b < length (ssets st)"
    "\<not> writer (mutex (ssets st ! a))" "\<not> writer (mutex (ssets st ! b))"
    using ra rb by (simp_all add: rlockable_def)
next
  fix st2 :: state
  assume u: "usets st2 = usets st" and l: "length (ssets st2) = length (ssets st)"
  show "wrap_safe f st2 (objects (ssets st ! a)) (U (objects (ssets st ! b))) =
          Inr (S (length (ssets st)), st2\<lparr>usets := us, ssets := ssets st2 @ [fresh_safe c]\<rparr>)"
    using wrap_safe_ok [where f = f and st = st2, OF spec [OF u]] l by (simp add: fresh_safe_def)
qed


lemma safe_Union_spec:
  assumes wf: "wf_state st" and ra: "rlockable st a" and rb: "rlockable st b"
  shows "safe_Union st a (S b) =
     Inr (S (length (ssets st)),
          st\<lparr>usets := usets st @
               [table_of st a @ filter (\<lambda>x. x \<notin> set (table_of st a)) (table_of st b)],
             ssets := ssets st @ [fresh_safe (length (usets st))],
             trace := trace st @ [EvRLock a, EvRLock b, EvRUnlock b, EvRUnlock a]\<rparr>)"
proof -
  have a: "a < length (ssets st)" and b: "b < length (ssets st)"
    using ra rb by (simp_all add: rlockable_def)
  note ta = wf_table [OF wf a] and tb = wf_table [OF wf b]
  show ?thesis
    unfolding safe_Union_def ref.case
    by (rule safe_algebra_ok [OF ra rb, THEN trans])
       (use ta tb in \<open>simp_all add: unsafe_Union_spec table_of_def\<close>)
qed

lemma safe_Intersect_spec:
  assumes wf: "wf_state st" and ra: "rlockable st a" and rb: "rlockable st b"
  shows "safe_Intersect st a (S b) =
     Inr (S (length (ssets st)),
          st\<lparr>usets := usets st @
               [if length (table_of st a) < length (table_of st b)
                then filter (\<lambda>x. x \<in> set (table_of st b)) (table_of st a)
                else filter (\<lambda>x. x \<in> set (table_of st a)) (table_of st b)],
             ssets := ssets st @ [fresh_safe (length (usets st))],
             trace := trace st @ [EvRLock a, EvRLock b, EvRUnlock b, EvRUnlock a]\<rparr>)"
proof -
  have a: "a < length (ssets st)" and b: "b < length (ssets st)"
    using ra rb by (simp_all add: rlockable_def)
  note ta = wf_table [OF wf a] and tb = wf_table [OF wf b]
  show ?thesis
    unfolding safe_Intersect_def ref.case
    by (rule safe_algebra_ok [OF ra rb, THEN trans])
       (use ta tb in \<open>simp_all add: unsafe_Intersect_spec table_of_def\<close>)
qed

lemma safe_Difference_spec:
  assumes wf: "wf_state st" and ra: "rlockable st a" and rb: "rlockable st b"
  shows "safe_Difference st a (S b) =
     Inr (S (length (ssets st)),
          st\<lparr>usets := usets st @ [filter (\<lambda>x. x \<notin> set (table_of st b)) (table_of st a)],
             ssets := ssets st @ [fresh_safe (length (usets st))],
             trace := trace st @ [EvRLock a, EvRLock b, EvRUnlock b, EvRUnlock a]\<rparr>)"
proof -
  have a: "a < length (ssets st)" and b: "b < length (ssets st)"
    using ra rb by (simp_all add: rlockable_def)
  note ta = wf_table [OF wf a] and tb = wf_table [OF wf b]
  show ?thesis
    unfolding safe_Difference_def ref.case
    by (rule safe_algebra_ok [OF ra rb, THEN trans])
       (use ta tb in \<open>simp_all add: unsafe_Difference_spec table_of_def\<close>)
qed

lemma safe_SymmetricDifference_spec:
  assumes wf: "wf_state st" and ra: "rlockable st a" and rb: "rlockable st b"
  shows "safe_SymmetricDifference st a (S b) =
     Inr (S (length (ssets st)),
          st\<lparr>usets := usets st @
               [filter (\<lambda>x. x \<notin> set (table_of st b)) (table_of st a),
                filter (\<lambda>x. x \<notin> set (table_of st a)) (table_of st b),
                filter (\<lambda>x. x \<notin> set (table_of st b)) (table_of st a) @
                filter (\<lambda>x. x \<notin> set (table_of st a)) (table_of st b)],
             ssets := ssets st @ [fresh_safe (length (usets st) + 2)],
             trace := trace st @ [EvRLock a, EvRLock b, EvRUnlock b, EvRUnlock a]\<rparr>)"
proof -
  have a: "a < length (ssets st)" and b: "b < length (ssets st)"
    using ra rb by (simp_all add: rlockable_def)
  note ta = wf_table [OF wf a] and tb = wf_table [OF wf b]
  show ?thesis
    unfolding safe_SymmetricDifference_def ref.case
    by (rule safe_algebra_ok [OF ra rb, THEN trans])
       (use ta tb in \<open>simp_all add: unsafe_SymmetricDifference_spec table_of_def\<close>)
qed




text \<open>The guarded \<open>CartesianProduct\<close>: on two different sets with free locks the second
  deferred \<open>set.mutex.RUnlock()\<close> is fatal; on one set taken twice it returns.\<close>

lemma safe_CartesianProduct_fatal:
  assumes wf: "wf_state st" and ua: "unlocked st a" and rb: "rlockable st b" and ab: "a \<noteq> b"
  shows "safe_CartesianProduct st a (S b) = Inl FatalRUnlock"
proof -
  have a: "a < length (ssets st)" and b: "b < length (ssets st)"
    and wa: "\<not> writer (mutex (ssets st ! a))" and wb: "\<not> writer (mutex (ssets st ! b))"
    and r0: "readers (mutex (ssets st ! a)) = 0"
    using ua rb by (simp_all add: rlockable_def unlocked_def)
  note ta = wf_table [OF wf a] and tb = wf_table [OF wf b]
  show ?thesis
    unfolding safe_CartesianProduct_def ref.case
  proof (rule rlocked2_double_release [OF a b ab wa wb r0])
    fix st2 :: state
    assume u: "usets st2 = usets st" and l: "length (ssets st2) = length (ssets st)"
    have "unsafe_CartesianProduct st2 (objects (ssets st ! a)) (U (objects (ssets st ! b))) =
        Inr (U (length (usets st)),
             st2\<lparr>usets := usets st @ [pairs (table_of st a) (table_of st b)]\<rparr>)"
      using ta tb u by (simp add: unsafe_CartesianProduct_spec table_of_def)
    from wrap_safe_ok [where f = unsafe_CartesianProduct and st = st2, OF this]
    show "wrap_safe unsafe_CartesianProduct st2 (objects (ssets st ! a)) (U (objects (ssets st ! b))) =
        Inr (S (length (ssets st)),
             st2\<lparr>usets := usets st @ [pairs (table_of st a) (table_of st b)],
                 ssets := ssets st2 @ [fresh_safe (length (usets st))]\<rparr>)"
      using l by (simp add: fresh_safe_def)
  qed
qed

section \<open>Inclusion and exclusion\<close>

lemma length_common:
  assumes "distinct s" "distinct t"
  shows "length (filter (\<lambda>x. x \<in> set t) s) = card (set s \<inter> set t)"
    and "length (filter (\<lambda>x. x \<in> set s) t) = card (set s \<inter> set t)"
proof -
  have "{x. x \<in> set t} \<inter> set s = set s \<inter> set t" by auto
  then show "length (filter (\<lambda>x. x \<in> set t) s) = card (set s \<inter> set t)"
    using assms(1) by (simp add: distinct_length_filter)
  have "{x. x \<in> set s} \<inter> set t = set s \<inter> set t" by auto
  then show "length (filter (\<lambda>x. x \<in> set s) t) = card (set s \<inter> set t)"
    using assms(2) by (simp add: distinct_length_filter)
qed

lemma length_union_table:
  assumes "distinct s" "distinct t"
  shows "int (length (s @ filter (\<lambda>x. x \<notin> set s) t)) =
         int (length s) + int (length t) - int (card (set s \<inter> set t))"
proof -
  have "length (filter (\<lambda>x. x \<in> set s) t) + length (filter (\<lambda>x. x \<notin> set s) t) = length t"
    using sum_length_filter_compl [of "\<lambda>x. x \<in> set s" t] by simp
  then show ?thesis
    using length_common(2) [OF assms] by simp
qed

lemma Union_Intersect_tables:
  assumes "distinct s" "distinct t"
  shows "Cardinality (s @ filter (\<lambda>x. x \<notin> set s) t) =
         Cardinality s + Cardinality t -
         Cardinality (if length s < length t then filter (\<lambda>x. x \<in> set t) s
                      else filter (\<lambda>x. x \<in> set s) t)"
  using length_union_table [OF assms] length_common [OF assms]
  by (simp add: Cardinality_def)

text \<open>
  C5. For two unguarded sets \<open>A\<close> and \<open>B\<close> of the store, \<open>A.Union(B)\<close> and
  \<open>A.Intersect(B)\<close> return new sets, and the cardinality of the union is the cardinality
  of \<open>A\<close> plus that of \<open>B\<close> minus that of the intersection. The same holds for two
  guarded sets whose read locks can be taken.
\<close>

theorem Union_inclusion_exclusion:
  "(wf_state st \<and> a < length (usets st) \<and> b < length (usets st) \<longrightarrow>
      (\<exists>u i st1 st2.
         unsafe_Union st a (U b) = Inr (U u, st1) \<and>
         unsafe_Intersect st a (U b) = Inr (U i, st2) \<and>
         Cardinality (usets st1 ! u) =
           Cardinality (usets st ! a) + Cardinality (usets st ! b) - Cardinality (usets st2 ! i))) \<and>
   (wf_state st \<and> rlockable st g \<and> rlockable st h \<longrightarrow>
      (\<exists>u i st1 st2.
         safe_Union st g (S h) = Inr (S u, st1) \<and>
         safe_Intersect st g (S h) = Inr (S i, st2) \<and>
         Cardinality (table_of st1 u) =
           Cardinality (table_of st g) + Cardinality (table_of st h) - Cardinality (table_of st2 i)))"
proof (intro conjI impI)
  assume "wf_state st \<and> a < length (usets st) \<and> b < length (usets st)"
  then have wf: "wf_state st" and a: "a < length (usets st)" and b: "b < length (usets st)"
    by simp_all
  have da: "distinct (usets st ! a)" and db: "distinct (usets st ! b)"
    using wf a b by (simp_all add: wf_state_def list_all_length)
  show "\<exists>u i st1 st2.
         unsafe_Union st a (U b) = Inr (U u, st1) \<and>
         unsafe_Intersect st a (U b) = Inr (U i, st2) \<and>
         Cardinality (usets st1 ! u) =
           Cardinality (usets st ! a) + Cardinality (usets st ! b) - Cardinality (usets st2 ! i)"
    using Union_Intersect_tables [OF da db]
    by (simp add: unsafe_Union_spec [OF a b da db] unsafe_Intersect_spec [OF a b da db])
next
  assume "wf_state st \<and> rlockable st g \<and> rlockable st h"
  then have wf: "wf_state st" and g: "rlockable st g" and h: "rlockable st h"
    by simp_all
  have dg: "distinct (table_of st g)" and dh: "distinct (table_of st h)"
    using wf g h by (simp_all add: wf_table rlockable_def)
  show "\<exists>u i st1 st2.
         safe_Union st g (S h) = Inr (S u, st1) \<and>
         safe_Intersect st g (S h) = Inr (S i, st2) \<and>
         Cardinality (table_of st1 u) =
           Cardinality (table_of st g) + Cardinality (table_of st h) - Cardinality (table_of st2 i)"
    using Union_Intersect_tables [OF dg dh]
    by (simp add: safe_Union_spec [OF wf g h] safe_Intersect_spec [OF wf g h]
        table_of_def [of _ "length (ssets st)"] fresh_safe_def)
qed

lemma example_state_rlockable: "rlockable example_state 0" "rlockable example_state 1"
  by (simp_all add: example_state_def rlockable_def)

theorem Union_inclusion_exclusion_witness:
  "wf_state example_state \<and> 0 < length (usets example_state) \<and> 1 < length (usets example_state) \<and>
   rlockable example_state 0 \<and> rlockable example_state 1 \<and>
   (\<exists>u i st1 st2.
      unsafe_Union example_state 0 (U 1) = Inr (U u, st1) \<and>
      unsafe_Intersect example_state 0 (U 1) = Inr (U i, st2) \<and>
      Cardinality (usets st1 ! u) =
        Cardinality (usets example_state ! 0) + Cardinality (usets example_state ! 1) -
        Cardinality (usets st2 ! i)) \<and>
   (\<exists>u i st1 st2.
      safe_Union example_state 0 (S 1) = Inr (S u, st1) \<and>
      safe_Intersect example_state 0 (S 1) = Inr (S i, st2) \<and>
      Cardinality (table_of st1 u) =
        Cardinality (table_of example_state 0) + Cardinality (table_of example_state 1) -
        Cardinality (table_of st2 i))"
proof -
  have h: "0 < length (usets example_state)" "1 < length (usets example_state)"
    by (simp_all add: example_state_def)
  from Union_inclusion_exclusion [of example_state 0 1 0 1]
    example_state_wf h example_state_rlockable
  show ?thesis by blast
qed

section \<open>Locking discipline of the two-operand methods\<close>







section \<open>The guarded CartesianProduct\<close>

text \<open>
  C3 at a failing input. While another goroutine holds a read lock on \<open>A\<close>,
  \<open>A.CartesianProduct(B)\<close> returns with the read lock of \<open>B\<close> still held (it was taken
  and never released) and with \<open>A\<close>'s lock released twice, which gives away the other
  goroutine's hold. With both locks free the second release is the runtime's fatal error.
\<close>

theorem CartesianProduct_releases_wrong_lock:
  "safe_CartesianProduct busy_state 0 (S 1) =
     Inr (S 2,
       \<lparr>usets = [[VInt 1, VStr ''a''], [VInt 1, VInt 5], [], [],
                 [OrderedPair (VInt 1) (VInt 1), OrderedPair (VInt 1) (VInt 5),
                  OrderedPair (VStr ''a'') (VInt 1), OrderedPair (VStr ''a'') (VInt 5)]],
        ssets = [\<lparr>objects = 0, mutex = \<lparr>readers = 0, writer = False\<rparr>\<rparr>,
                 \<lparr>objects = 1, mutex = \<lparr>readers = 1, writer = False\<rparr>\<rparr>,
                 \<lparr>objects = 4, mutex = \<lparr>readers = 0, writer = False\<rparr>\<rparr>],
        trace = [EvRLock 0, EvRLock 1, EvRUnlock 0, EvRUnlock 0]\<rparr>) \<and>
   safe_CartesianProduct example_state 0 (S 1) = Inl FatalRUnlock"
proof
  show "safe_CartesianProduct busy_state 0 (S 1) =
     Inr (S 2,
       \<lparr>usets = [[VInt 1, VStr ''a''], [VInt 1, VInt 5], [], [],
                 [OrderedPair (VInt 1) (VInt 1), OrderedPair (VInt 1) (VInt 5),
                  OrderedPair (VStr ''a'') (VInt 1), OrderedPair (VStr ''a'') (VInt 5)]],
        ssets = [\<lparr>objects = 0, mutex = \<lparr>readers = 0, writer = False\<rparr>\<rparr>,
                 \<lparr>objects = 1, mutex = \<lparr>readers = 1, writer = False\<rparr>\<rparr>,
                 \<lparr>objects = 4, mutex = \<lparr>readers = 0, writer = False\<rparr>\<rparr>],
        trace = [EvRLock 0, EvRLock 1, EvRUnlock 0, EvRUnlock 0]\<rparr>)"
    by (simp add: busy_state_def safe_CartesianProduct_def rlocked2_def mutex_RLock_def
        mutex_RUnlock_def set_mutex_def objects_of_def wrap_safe_def unsafe_CartesianProduct_def
        NewThreadUnsafeSet_def alloc_unsafe_def alloc_safe_def pairs_def on_table_def Add_def
        newThreadUnsafeSet_def)
  show "safe_CartesianProduct example_state 0 (S 1) = Inl FatalRUnlock"
    by (rule safe_CartesianProduct_fatal
          [OF example_state_wf example_state_unlocked(1) example_state_rlockable(2)]) simp
qed

section \<open>Purity of the algebra operations\<close>

lemma unguarded_algebra_pure:
  assumes wf: "wf_state st" and a: "a < length (usets st)" and b: "b < length (usets st)"
  shows "pure_unguarded st (unsafe_Union st a (U b))"
    and "pure_unguarded st (unsafe_Intersect st a (U b))"
    and "pure_unguarded st (unsafe_Difference st a (U b))"
    and "pure_unguarded st (unsafe_SymmetricDifference st a (U b))"
    and "pure_unguarded st (unsafe_CartesianProduct st a (U b))"
proof -
  have da: "distinct (usets st ! a)" and db: "distinct (usets st ! b)"
    using wf a b by (simp_all add: wf_state_def list_all_length)
  show "pure_unguarded st (unsafe_Union st a (U b))"
    by (simp add: unsafe_Union_spec [OF a b da db] pure_unguarded_def)
  show "pure_unguarded st (unsafe_Intersect st a (U b))"
    by (simp add: unsafe_Intersect_spec [OF a b da db] pure_unguarded_def)
  show "pure_unguarded st (unsafe_Difference st a (U b))"
    by (simp add: unsafe_Difference_spec [OF a b da] pure_unguarded_def)
  show "pure_unguarded st (unsafe_SymmetricDifference st a (U b))"
    by (simp add: unsafe_SymmetricDifference_spec [OF a b da db] pure_unguarded_def)
  show "pure_unguarded st (unsafe_CartesianProduct st a (U b))"
    by (simp add: unsafe_CartesianProduct_spec [OF a b da db] pure_unguarded_def)
qed

lemma guarded_algebra_pure:
  assumes wf: "wf_state st" and ra: "rlockable st a" and rb: "rlockable st b"
  shows "pure_guarded st (safe_Union st a (S b))"
    and "pure_guarded st (safe_Intersect st a (S b))"
    and "pure_guarded st (safe_Difference st a (S b))"
    and "pure_guarded st (safe_SymmetricDifference st a (S b))"
proof -
  show "pure_guarded st (safe_Union st a (S b))"
    by (simp add: safe_Union_spec [OF wf ra rb] pure_guarded_def fresh_safe_def)
  show "pure_guarded st (safe_Intersect st a (S b))"
    by (simp add: safe_Intersect_spec [OF wf ra rb] pure_guarded_def fresh_safe_def)
  show "pure_guarded st (safe_Difference st a (S b))"
    by (simp add: safe_Difference_spec [OF wf ra rb] pure_guarded_def fresh_safe_def)
  show "pure_guarded st (safe_SymmetricDifference st a (S b))"
    by (simp add: safe_SymmetricDifference_spec [OF wf ra rb] pure_guarded_def fresh_safe_def)
qed

text \<open>
  C7 at a failing input. The four other operations are pure on both variants, and so is
  the unguarded \<open>CartesianProduct\<close> (the two lemmas above). The guarded
  \<open>B.CartesianProduct(A)\<close> on two different sets with free locks returns no set: its
  second deferred \<open>set.mutex.RUnlock()\<close> is the runtime's fatal error.
\<close>

theorem guarded_CartesianProduct_no_result:
  "safe_CartesianProduct example_state 1 (S 0) = Inl FatalRUnlock \<and>
   \<not> pure_guarded example_state (safe_CartesianProduct example_state 1 (S 0))"
proof -
  have "safe_CartesianProduct example_state 1 (S 0) = Inl FatalRUnlock"
    by (rule safe_CartesianProduct_fatal
          [OF example_state_wf example_state_unlocked(2) example_state_rlockable(1)]) simp
  then show ?thesis by (simp add: pure_guarded_def)
qed

section \<open>Deserialization\<close>

lemma add_decoded_prefix: "\<exists>new. add_decoded i s = s @ new"
proof (induction i arbitrary: s)
  case Nil
  then show ?case by simp
next
  case (Cons v vs)
  show ?case
  proof (cases "to_val v")
    case None
    then show ?thesis using Cons.IH [of s] by simp
  next
    case (Some t)
    obtain new where "add_decoded vs (snd (Add s t)) = snd (Add s t) @ new"
      using Cons.IH [of "snd (Add s t)"] by blast
    then show ?thesis using Some by (auto simp: Add_def)
  qed
qed

lemma add_decoded_set:
  "set (add_decoded i s) = set s \<union> {t. \<exists>v \<in> set i. to_val v = Some t}"
  by (induction i arbitrary: s) (auto simp: Add_set split: option.splits)

lemma add_decoded_distinct: "distinct s \<Longrightarrow> distinct (add_decoded i s)"
  by (induction i arbitrary: s) (auto simp: Add_distinct split: option.splits)

lemma UnmarshalJSON_error: "Decode b = Inl err \<Longrightarrow> UnmarshalJSON Decode s b = (Some err, s)"
  by (simp add: UnmarshalJSON_def)

lemma UnmarshalJSON_ok: "Decode b = Inr i \<Longrightarrow> UnmarshalJSON Decode s b = (None, add_decoded i s)"
  by (simp add: UnmarshalJSON_def)

lemma UnmarshalJSON_keeps: "set s \<subseteq> set (snd (UnmarshalJSON Decode s b))"
  by (cases "Decode b") (auto simp: UnmarshalJSON_def add_decoded_set)

lemma UnmarshalJSON_distinct: "distinct s \<Longrightarrow> distinct (snd (UnmarshalJSON Decode s b))"
  by (cases "Decode b") (auto simp: UnmarshalJSON_def add_decoded_distinct)

lemma rlock_restore:
  assumes "a < length xs"
  shows "(xs[a := rd Suc (xs ! a)])[a := rd (\<lambda>n. n - 1) (xs[a := rd Suc (xs ! a)] ! a)] = xs"
  using assms by (simp add: rd_id comp_def)

lemma safe_UnmarshalJSON_spec:
  assumes wf: "wf_state st" and ra: "rlockable st a"
  shows "safe_UnmarshalJSON Decode st a p =
     Inr (fst (UnmarshalJSON Decode (table_of st a) p),
          st\<lparr>usets := (usets st)[objects (ssets st ! a) :=
                                    snd (UnmarshalJSON Decode (table_of st a) p)],
             trace := trace st @ [EvRLock a, EvRUnlock a]\<rparr>)"
proof -
  have a: "a < length (ssets st)" and w: "\<not> writer (mutex (ssets st ! a))"
    using ra by (simp_all add: rlockable_def)
  note c = wf_table(1) [OF wf a]
  let ?st1 = "st\<lparr>ssets := (ssets st)[a := rd Suc (ssets st ! a)], trace := trace st @ [EvRLock a]\<rparr>"
  let ?r = "UnmarshalJSON Decode (table_of st a) p"
  let ?st2 = "?st1\<lparr>usets := (usets st)[objects (ssets st ! a) := snd ?r]\<rparr>"
  have 1: "mutex_RLock a st = Inr ?st1" using a w by (rule mutex_RLock_ok)
  have 2: "objects_of ?st1 a = Inr (objects (ssets st ! a))"
    using a by (simp add: objects_of_def)
  have 3: "on_table ?st1 (objects (ssets st ! a)) (\<lambda>t. UnmarshalJSON Decode t p) = Inr (fst ?r, ?st2)"
    using c by (simp add: on_table_def table_of_def split: prod.splits)
  have 4: "mutex_RUnlock a ?st2 =
      Inr (?st2\<lparr>ssets := (ssets ?st2)[a := rd (\<lambda>n. n - 1) (ssets ?st2 ! a)],
                 trace := trace ?st2 @ [EvRUnlock a]\<rparr>)"
    using a by (intro mutex_RUnlock_ok) simp_all
  have "safe_UnmarshalJSON Decode st a p =
      Inr (fst ?r, ?st2\<lparr>ssets := (ssets ?st2)[a := rd (\<lambda>n. n - 1) (ssets ?st2 ! a)],
                 trace := trace ?st2 @ [EvRUnlock a]\<rparr>)"
    unfolding safe_UnmarshalJSON_def
    by (simp only: 1 2 3 4 bindF_Inr prod.case)
  then show ?thesis
    using rlock_restore [OF a] by simp
qed

lemmas json_eval = json_Decode_def is_ws_def is_digit_def is_numchar_def valid_number_def
  literal_def int_part_def opt_minus_def frac_part_def exp_part_def

lemma Decode_example:
  "json_Decode ''[7,[1],{},true,null]'' =
     Inr [JNumber ''7'', JArray [JNumber ''1''], JObject [], JBool True, JNull]"
  by (simp add: json_eval)

lemma Decode_malformed: "json_Decode ''[1,2,x]'' = Inl Malformed"
  by (simp add: json_eval)

text \<open>
  C10. \<open>UnmarshalJSON\<close> never removes a key: every element of the set before the call is
  in the set after it, whatever the decoder answers. When the input decodes to the array
  \<open>i\<close>, the call returns \<open>nil\<close>, the old keys keep their places, and the set afterwards is
  the old set together with the scalar entries of \<open>i\<close>. The guarded \<open>UnmarshalJSON\<close> does
  the same to its table (it takes the read lock).
\<close>

theorem UnmarshalJSON_merges:
  "set s \<subseteq> set (snd (UnmarshalJSON Decode s b)) \<and>
   (Decode b = Inr i \<longrightarrow>
      UnmarshalJSON Decode s b = (None, add_decoded i s) \<and>
      (\<exists>new. add_decoded i s = s @ new) \<and>
      set (add_decoded i s) = set s \<union> {t. \<exists>v \<in> set i. to_val v = Some t}) \<and>
   (wf_state st \<and> rlockable st a \<longrightarrow>
      (\<exists>st'. safe_UnmarshalJSON Decode st a b =
                Inr (fst (UnmarshalJSON Decode (table_of st a) b), st') \<and>
         table_of st' a = snd (UnmarshalJSON Decode (table_of st a) b) \<and>
         set (table_of st a) \<subseteq> set (table_of st' a)))"
proof (intro conjI impI)
  show "set s \<subseteq> set (snd (UnmarshalJSON Decode s b))"
    by (rule UnmarshalJSON_keeps)
next
  assume "Decode b = Inr i"
  then show "UnmarshalJSON Decode s b = (None, add_decoded i s)"
    by (rule UnmarshalJSON_ok)
next
  show "\<exists>new. add_decoded i s = s @ new"
    by (rule add_decoded_prefix)
next
  show "set (add_decoded i s) = set s \<union> {t. \<exists>v \<in> set i. to_val v = Some t}"
    by (rule add_decoded_set)
next
  assume "wf_state st \<and> rlockable st a"
  then have wf: "wf_state st" and ra: "rlockable st a" by simp_all
  have c: "objects (ssets st ! a) < length (usets st)"
    using wf ra by (simp add: wf_table rlockable_def)
  show "\<exists>st'. safe_UnmarshalJSON Decode st a b =
                Inr (fst (UnmarshalJSON Decode (table_of st a) b), st') \<and>
         table_of st' a = snd (UnmarshalJSON Decode (table_of st a) b) \<and>
         set (table_of st a) \<subseteq> set (table_of st' a)"
    using c UnmarshalJSON_keeps [of "table_of st a" Decode b]
    by (simp add: safe_UnmarshalJSON_spec [OF wf ra] table_of_def)
qed

theorem UnmarshalJSON_merges_witness:
  "json_Decode ''[7,[1],{},true,null]'' =
     Inr [JNumber ''7'', JArray [JNumber ''1''], JObject [], JBool True, JNull] \<and>
   wf_state example_state \<and> rlockable example_state 0 \<and>
   set [VInt 7] \<subseteq> set (snd (UnmarshalJSON json_Decode [VInt 7] ''[7,[1],{},true,null]'')) \<and>
   UnmarshalJSON json_Decode [VInt 7] ''[7,[1],{},true,null]'' =
     (None, [VInt 7, VNumber ''7'', VBool True, VNil]) \<and>
   (\<exists>st'. safe_UnmarshalJSON json_Decode example_state 0 ''[7,[1],{},true,null]'' =
             Inr (fst (UnmarshalJSON json_Decode (table_of example_state 0) ''[7,[1],{},true,null]''), st') \<and>
      table_of st' 0 = snd (UnmarshalJSON json_Decode (table_of example_state 0) ''[7,[1],{},true,null]'') \<and>
      set (table_of example_state 0) \<subseteq> set (table_of st' 0))"
proof -
  have e: "add_decoded [JNumber ''7'', JArray [JNumber ''1''], JObject [], JBool True, JNull] [VInt 7]
      = [VInt 7, VNumber ''7'', VBool True, VNil]"
    by (simp add: Add_def)
  from UnmarshalJSON_merges [of "[VInt 7]" json_Decode "''[7,[1],{},true,null]''"
      "[JNumber ''7'', JArray [JNumber ''1''], JObject [], JBool True, JNull]" example_state 0]
    Decode_example example_state_wf example_state_rlockable(1) e
  show ?thesis by simp
qed

text \<open>
  C1, as the code has it. When the decoder reports an error, \<open>UnmarshalJSON\<close> returns that
  error and the set is exactly as it was: the whole input is decoded before the first
  \<open>Add\<close>, so nothing of a malformed input is added. The guarded method returns the same
  error, its table and its lock unchanged.
\<close>

theorem UnmarshalJSON_error_leaves_set:
  "(Decode b = Inl err \<longrightarrow> UnmarshalJSON Decode s b = (Some err, s)) \<and>
   (Decode b = Inl err \<and> wf_state st \<and> rlockable st a \<longrightarrow>
      (\<exists>st'. safe_UnmarshalJSON Decode st a b = Inr (Some err, st') \<and>
         usets st' = usets st \<and> ssets st' = ssets st))"
proof (intro conjI impI)
  assume "Decode b = Inl err"
  then show "UnmarshalJSON Decode s b = (Some err, s)"
    by (rule UnmarshalJSON_error)
next
  assume "Decode b = Inl err \<and> wf_state st \<and> rlockable st a"
  then have d: "Decode b = Inl err" and wf: "wf_state st" and ra: "rlockable st a"
    by simp_all
  show "\<exists>st'. safe_UnmarshalJSON Decode st a b = Inr (Some err, st') \<and>
         usets st' = usets st \<and> ssets st' = ssets st"
    by (simp add: safe_UnmarshalJSON_spec [OF wf ra]
        UnmarshalJSON_error [where Decode = Decode and b = b, OF d] table_of_def)
qed

theorem UnmarshalJSON_error_leaves_set_witness:
  "json_Decode ''[1,2,x]'' = Inl Malformed \<and> wf_state example_state \<and> rlockable example_state 0 \<and>
   UnmarshalJSON json_Decode [VInt 7] ''[1,2,x]'' = (Some Malformed, [VInt 7]) \<and>
   (\<exists>st'. safe_UnmarshalJSON json_Decode example_state 0 ''[1,2,x]'' = Inr (Some Malformed, st') \<and>
      usets st' = usets example_state \<and> ssets st' = ssets example_state)"
  using UnmarshalJSON_error_leaves_set [of json_Decode "''[1,2,x]''" Malformed "[VInt 7]" example_state 0]
    Decode_malformed example_state_wf example_state_rlockable(1)
  by simp

text \<open>
  The claim as stated fails on the input \<open>[1,2,x]\<close>: the elements \<open>1\<close> and \<open>2\<close> parse
  before the malformed \<open>x\<close> is met, the call returns the decode error, and the set is
  still empty.
\<close>

theorem UnmarshalJSON_not_incremental:
  "parse_value (fuel_for ''1'') ''1,2,x]'' = Inr (JNumber ''1'', '',2,x]'') \<and>
   json_Decode ''[1,2,x]'' = Inl Malformed \<and>
   UnmarshalJSON json_Decode [] ''[1,2,x]'' = (Some Malformed, []) \<and>
   VNumber ''1'' \<notin> set (snd (UnmarshalJSON json_Decode [] ''[1,2,x]''))"
proof -
  have 1: "parse_value (fuel_for ''1'') ''1,2,x]'' = Inr (JNumber ''1'', '',2,x]'')"
    by (simp add: json_eval)
  have 2: "UnmarshalJSON json_Decode [] ''[1,2,x]'' = (Some Malformed, [])"
    by (simp add: UnmarshalJSON_def Decode_malformed)
  have 3: "VNumber ''1'' \<notin> set (snd (UnmarshalJSON json_Decode [] ''[1,2,x]''))"
    by (simp add: 2)
  from 1 Decode_malformed 2 3 show ?thesis by (intro conjI)
qed

section \<open>Power set\<close>

subsection \<open>The family of subsets\<close>

lemma length_extend_family: "length (fold extend_family items C) = 2 ^ length items * length C"
  by (induction items arbitrary: C) (simp_all add: extend_family_def)

lemma set_extend_family:
  "set (map set (extend_family item C)) = set (map set C) \<union> insert item ` set (map set C)"
  by (auto simp: extend_family_def Add_set image_iff)

lemma set_fold_extend_family:
  "set (map set (fold extend_family items C)) =
   fold (\<lambda>e acc. acc \<union> insert e ` acc) items (set (map set C))"
proof (induction items arbitrary: C)
  case Nil
  then show ?case by simp
next
  case (Cons item items)
  show ?case
    using Cons.IH [of "extend_family item C"]
    by (simp only: fold_simps set_extend_family)
qed

lemma fold_Pow:
  "fold (\<lambda>e acc. acc \<union> insert e ` acc) items (Pow X) = Pow (X \<union> set items)"
proof (induction items arbitrary: X)
  case Nil
  then show ?case by simp
next
  case (Cons e items)
  have "Pow X \<union> insert e ` Pow X = Pow (insert e X)"
    by (simp add: Pow_insert)
  then show ?case
    using Cons.IH [of "insert e X"] by simp
qed

lemma PowerSet_spec_Pow: "PowerSet_spec A = Pow (set A)"
  using fold_Pow [of A "{}"] by (simp add: PowerSet_spec_def)

lemma family_is_spec: "set (map set (fold extend_family A [[]])) = PowerSet_spec A"
  using set_fold_extend_family [of A "[[]]"] by (simp add: PowerSet_spec_def)

lemma distinct_extend_family:
  "list_all distinct C \<Longrightarrow> list_all distinct (fold extend_family items C)"
proof (induction items arbitrary: C)
  case Nil
  then show ?case by simp
next
  case (Cons item items)
  have "list_all distinct (extend_family item C)"
    using Cons.prems by (auto simp: extend_family_def list_all_iff Add_distinct)
  then show ?case using Cons.IH by simp
qed

subsection \<open>The loops of the unguarded PowerSet\<close>

lemma grows_refl: "grows st st"
  by (simp add: grows_def)

lemma grows_trans: "grows st st1 \<Longrightarrow> grows st1 st2 \<Longrightarrow> grows st st2"
  unfolding grows_def
  by (metis append_take_drop_id length_append take_all_iff take_append le_add1 nat_le_linear
      take_take min.absorb1 length_take)

lemma grows_append: "grows st (st\<lparr>usets := usets st @ new\<rparr>)"
  by (simp add: grows_def)

lemma grows_nth: "grows st st' \<Longrightarrow> k < length (usets st) \<Longrightarrow> usets st' ! k = usets st ! k"
  unfolding grows_def by (metis nth_take)

lemma grows_length: "grows st st' \<Longrightarrow> length (usets st) \<le> length (usets st')"
  unfolding grows_def by (metis length_take min.cobounded1)

lemma distinct_ptrs [simp]: "distinct (ptrs ks) = distinct ks"
  by (simp add: ptrs_def distinct_map inj_on_def)

lemma set_ptrs: "set (ptrs ks) = (\<lambda>k. VPtr (U k)) ` set ks"
  by (simp add: ptrs_def)

lemma length_ptrs [simp]: "length (ptrs ks) = length ks"
  by (simp add: ptrs_def)

lemma ptrs_append: "ptrs (ks @ ls) = ptrs ks @ ptrs ls"
  by (simp add: ptrs_def)

lemma copy_member_ptr:
  "k < length (usets st) \<Longrightarrow> distinct (usets st ! k) \<Longrightarrow>
   copy_member st (VPtr (U k)) = Inr (usets st ! k)"
  by (simp add: copy_member_def add_all_empty)

lemma subsets_with_spec:
  assumes "list_all (\<lambda>k. k < length (usets st) \<and> distinct (usets st ! k)) ks"
    and "\<And>k. VPtr (U k) \<in> set u \<Longrightarrow> k < length (usets st)"
  shows "subsets_with item (ptrs ks) u st =
     Inr (u @ ptrs [length (usets st)..<length (usets st) + length ks],
          st\<lparr>usets := usets st @ map (\<lambda>k. snd (Add (usets st ! k) item)) ks\<rparr>)"
  using assms
proof (induction ks arbitrary: u st)
  case Nil
  then show ?case by (simp add: ptrs_def)
next
  case (Cons k ks)
  let ?n = "length (usets st)"
  let ?st1 = "st\<lparr>usets := usets st @ [snd (Add (usets st ! k) item)]\<rparr>"
  let ?u1 = "u @ [VPtr (U ?n)]"
  from Cons.prems(1) have k: "k < ?n" and dk: "distinct (usets st ! k)"
    and ks: "list_all (\<lambda>k. k < ?n \<and> distinct (usets st ! k)) ks"
    by simp_all
  have fresh: "VPtr (U ?n) \<notin> set u"
    using Cons.prems(2) [of ?n] by auto
  have step: "subsets_with item (ptrs (k # ks)) u st = subsets_with item (ptrs ks) ?u1 ?st1"
    using fresh by (simp add: ptrs_def copy_member_ptr [OF k dk] alloc_unsafe_def Add_def)
  have ks1: "list_all (\<lambda>k. k < length (usets ?st1) \<and> distinct (usets ?st1 ! k)) ks"
    using ks by (auto simp: list_all_iff nth_append)
  have u1: "\<And>j. VPtr (U j) \<in> set ?u1 \<Longrightarrow> j < length (usets ?st1)"
  proof -
    fix j assume "VPtr (U j) \<in> set ?u1"
    then have "VPtr (U j) \<in> set u \<or> j = ?n" by auto
    then show "j < length (usets ?st1)"
      using Cons.prems(2) [of j] by auto
  qed
  have same: "map (\<lambda>k. snd (Add (usets ?st1 ! k) item)) ks =
              map (\<lambda>k. snd (Add (usets st ! k) item)) ks"
    using ks by (auto simp: list_all_iff nth_append)
  have range: "[?n..<Suc (?n + length ks)] = ?n # [Suc ?n..<Suc (?n + length ks)]"
    by (subst upt_rec) simp
  have "subsets_with item (ptrs ks) ?u1 ?st1 =
      Inr (?u1 @ ptrs [length (usets ?st1)..<length (usets ?st1) + length ks],
           ?st1\<lparr>usets := usets ?st1 @ map (\<lambda>k. snd (Add (usets ?st1 ! k) item)) ks\<rparr>)"
    by (rule Cons.IH [OF ks1 u1])
  then show ?case
    unfolding step same by (simp add: ptrs_def range del: upt_Suc)
qed

lemma pow_inv_D:
  assumes "pow_inv st ps ks"
  shows "ps < length (usets st)" "usets st ! ps = ptrs ks" "distinct ks"
    "list_all (\<lambda>k. k < length (usets st) \<and> distinct (usets st ! k)) ks"
  using assms by (simp_all add: pow_inv_def)

lemma powerset_step:
  assumes inv: "pow_inv st ps ks"
  shows "powerset_loop (item # items) (U ps) st =
         powerset_loop items (U (length (usets st) + length ks + 1)) (after_round item ks st)"
proof -
  let ?n = "length (usets st)" and ?m = "length ks"
  note ps = pow_inv_D [OF inv]
  let ?new = "map (\<lambda>k. snd (Add (usets st ! k) item)) ks"
  let ?u = "ptrs [?n..<?n + ?m]"
  let ?st2 = "st\<lparr>usets := usets st @ ?new\<rparr>"
  let ?st3 = "?st2\<lparr>usets := usets ?st2 @ [?u]\<rparr>"
  have 1: "Set_Iter st (U ps) = Inr (ptrs ks, st)"
    using ps(1,2) by simp
  have 2: "subsets_with item (ptrs ks) newThreadUnsafeSet st = Inr (?u, ?st2)"
    using subsets_with_spec [OF ps(4), of "[]" item] by (simp add: newThreadUnsafeSet_def)
  have 3: "alloc_unsafe ?st2 ?u = (?n + ?m, ?st3)"
    by (simp add: alloc_unsafe_def)
  have a: "ps < length (usets ?st3)" and b: "?n + ?m < length (usets ?st3)"
    using ps(1) by simp_all
  have ta: "usets ?st3 ! ps = ptrs ks"
    using ps(1,2) by (simp add: nth_append)
  have tb: "usets ?st3 ! (?n + ?m) = ?u"
    by (simp add: nth_append)
  have da: "distinct (usets ?st3 ! ps)" using ps(3) by (simp only: ta distinct_ptrs)
  have db: "distinct (usets ?st3 ! (?n + ?m))" by (simp only: tb distinct_ptrs) simp
  have old: "\<forall>k \<in> set ks. k < ?n"
    using ps(4) by (simp add: list_all_iff)
  have f: "filter (\<lambda>x. x \<notin> set (ptrs ks)) ?u = ?u"
    using old by (intro filter_True) (auto simp: set_ptrs)
  have 4: "unsafe_Union ?st3 ps (U (?n + ?m)) =
      Inr (U (?n + ?m + 1), ?st3\<lparr>usets := usets ?st3 @ [ptrs ks @ ?u]\<rparr>)"
    using unsafe_Union_spec [OF a b da db] by (simp only: ta tb f) simp
  have 5: "?st3\<lparr>usets := usets ?st3 @ [ptrs ks @ ?u]\<rparr> = after_round item ks st"
    by (simp add: after_round_def ptrs_append)
  show ?thesis
    by (simp only: powerset_loop.simps 1 2 3 4 5 bindF_Inr prod.case Set_Union.simps)
qed

lemma after_round_grows: "grows st (after_round item ks st)"
  by (simp add: after_round_def grows_def)

lemma after_round_inv:
  assumes inv: "pow_inv st ps ks"
  shows "pow_inv (after_round item ks st) (length (usets st) + length ks + 1)
           (ks @ [length (usets st)..<length (usets st) + length ks])"
proof -
  let ?n = "length (usets st)" and ?m = "length ks"
  note ps = pow_inv_D [OF inv]
  have old: "\<forall>k \<in> set ks. k < ?n \<and> distinct (usets st ! k)"
    using ps(4) by (simp add: list_all_iff)
  have d: "distinct (ks @ [?n..<?n + ?m])"
    using ps(3) old by auto
  have new: "\<And>j. j < ?m \<Longrightarrow>
      usets (after_round item ks st) ! (?n + j) = snd (Add (usets st ! (ks ! j)) item)"
    by (simp add: after_round_def nth_append)
  have all: "list_all (\<lambda>k. k < length (usets (after_round item ks st)) \<and>
                distinct (usets (after_round item ks st) ! k)) (ks @ [?n..<?n + ?m])"
  proof -
    have "\<And>k. k \<in> set ks \<Longrightarrow> k < length (usets (after_round item ks st)) \<and>
                distinct (usets (after_round item ks st) ! k)"
      using old by (auto simp: after_round_def nth_append)
    moreover have "\<And>k. k \<in> set [?n..<?n + ?m] \<Longrightarrow>
        k < length (usets (after_round item ks st)) \<and>
        distinct (usets (after_round item ks st) ! k)"
    proof -
      fix k assume "k \<in> set [?n..<?n + ?m]"
      then have "?n \<le> k" and "k < ?n + ?m" by simp_all
      then obtain j where j: "j < ?m" and k: "k = ?n + j"
        by (metis le_Suc_ex nat_add_left_cancel_less)
      have "ks ! j \<in> set ks" using j by simp
      then have "distinct (snd (Add (usets st ! (ks ! j)) item))"
        using old by (simp add: Add_distinct)
      then show "k < length (usets (after_round item ks st)) \<and>
        distinct (usets (after_round item ks st) ! k)"
        using j by (simp add: k new) (simp add: after_round_def)
    qed
    ultimately show ?thesis by (auto simp: list_all_iff)
  qed
  show ?thesis
    unfolding pow_inv_def
    using d all by (simp add: after_round_def nth_append)
qed

lemma after_round_tables:
  assumes inv: "pow_inv st ps ks"
  shows "map (\<lambda>k. usets (after_round item ks st) ! k)
           (ks @ [length (usets st)..<length (usets st) + length ks]) =
         extend_family item (map (\<lambda>k. usets st ! k) ks)"
proof -
  let ?n = "length (usets st)" and ?m = "length ks"
  note ps = pow_inv_D [OF inv]
  have old: "\<forall>k \<in> set ks. k < ?n"
    using ps(4) by (simp add: list_all_iff)
  have 1: "map (\<lambda>k. usets (after_round item ks st) ! k) ks = map (\<lambda>k. usets st ! k) ks"
    using old by (auto simp: after_round_def nth_append)
  have 2: "map (\<lambda>k. usets (after_round item ks st) ! k) [?n..<?n + ?m] =
           map (\<lambda>t. snd (Add t item)) (map (\<lambda>k. usets st ! k) ks)"
    by (rule nth_equalityI) (simp_all add: after_round_def nth_append)
  show ?thesis
    by (simp add: extend_family_def 1 2)
qed

lemma after_round_distinct:
  assumes inv: "pow_inv st ps ks" and wf: "list_all distinct (usets st)"
  shows "list_all distinct (usets (after_round item ks st))"
proof -
  note ps = pow_inv_D [OF inv]
  have old: "\<forall>k \<in> set ks. k < length (usets st) \<and> distinct (usets st ! k)"
    using ps(4) by (simp add: list_all_iff)
  have "distinct (ks @ [length (usets st)..<length (usets st) + length ks])"
    using ps(3) old by auto
  then show ?thesis
    using wf old ps(3)
    by (auto simp: after_round_def list_all_iff Add_distinct)
qed

lemma powerset_loop_spec:
  assumes "pow_inv st ps ks"
  shows "\<exists>ps' ks' st'.
           powerset_loop items (U ps) st = Inr (U ps', st') \<and> pow_inv st' ps' ks' \<and>
           map (\<lambda>k. usets st' ! k) ks' = fold extend_family items (map (\<lambda>k. usets st ! k) ks) \<and>
           grows st st' \<and> (list_all distinct (usets st) \<longrightarrow> list_all distinct (usets st'))"
  using assms
proof (induction items arbitrary: st ps ks)
  case Nil
  then show ?case by (auto simp: grows_refl)
next
  case (Cons item items)
  let ?st1 = "after_round item ks st"
  let ?ps1 = "length (usets st) + length ks + 1"
  let ?ks1 = "ks @ [length (usets st)..<length (usets st) + length ks]"
  have inv1: "pow_inv ?st1 ?ps1 ?ks1"
    using Cons.prems by (rule after_round_inv)
  from Cons.IH [OF inv1] obtain ps' ks' st' where
    r: "powerset_loop items (U ?ps1) ?st1 = Inr (U ps', st')" and
    i: "pow_inv st' ps' ks'" and
    t: "map (\<lambda>k. usets st' ! k) ks' =
        fold extend_family items (map (\<lambda>k. usets ?st1 ! k) ?ks1)" and
    g: "grows ?st1 st'" and
    d: "list_all distinct (usets ?st1) \<longrightarrow> list_all distinct (usets st')"
    by blast
  have "powerset_loop (item # items) (U ps) st = Inr (U ps', st')"
    using powerset_step [OF Cons.prems] r by simp
  moreover have "map (\<lambda>k. usets st' ! k) ks' =
      fold extend_family (item # items) (map (\<lambda>k. usets st ! k) ks)"
    using t after_round_tables [OF Cons.prems] by simp
  moreover have "grows st st'"
    using after_round_grows g by (rule grows_trans)
  moreover have "list_all distinct (usets st) \<longrightarrow> list_all distinct (usets st')"
    using d after_round_distinct [OF Cons.prems] by blast
  ultimately show ?case using i by blast
qed

lemma unsafe_PowerSet_spec:
  assumes wf: "wf_state st" and a: "a < length (usets st)"
  shows "\<exists>ps ks st'.
           unsafe_PowerSet st a = Inr (U ps, st') \<and> pow_inv st' ps ks \<and>
           map (\<lambda>k. usets st' ! k) ks = fold extend_family (usets st ! a) [[]] \<and>
           grows st st' \<and> list_all distinct (usets st')"
proof -
  let ?n = "length (usets st)"
  let ?st3 = "st\<lparr>usets := usets st @ [[VPtr (U (Suc ?n))], []]\<rparr>"
  have d: "list_all distinct (usets st)"
    using wf by (simp add: wf_state_def)
  have start: "unsafe_PowerSet st a = powerset_loop (usets st ! a) (U ?n) ?st3"
    using a
    by (simp add: unsafe_PowerSet_def NewThreadUnsafeSet_def alloc_unsafe_def on_table_def
        newThreadUnsafeSet_def Add_def nth_append)
  have inv: "pow_inv ?st3 ?n [Suc ?n]"
    by (simp add: pow_inv_def ptrs_def nth_append)
  from powerset_loop_spec [OF inv, of "usets st ! a"] obtain ps ks st' where
    r: "powerset_loop (usets st ! a) (U ?n) ?st3 = Inr (U ps, st')" and
    i: "pow_inv st' ps ks" and
    t: "map (\<lambda>k. usets st' ! k) ks =
        fold extend_family (usets st ! a) (map (\<lambda>k. usets ?st3 ! k) [Suc ?n])" and
    g: "grows ?st3 st'" and
    dd: "list_all distinct (usets ?st3) \<longrightarrow> list_all distinct (usets st')"
    by blast
  have "map (\<lambda>k. usets ?st3 ! k) [Suc ?n] = [[]]"
    by (simp add: nth_append)
  with t have t': "map (\<lambda>k. usets st' ! k) ks = fold extend_family (usets st ! a) [[]]"
    by simp
  have g': "grows st st'"
    using grows_append [of st "[[VPtr (U (Suc ?n))], []]"] g by (rule grows_trans)
  have "list_all distinct (usets ?st3)" using d by simp
  with dd have "list_all distinct (usets st')" by blast
  with start r i t' g' show ?thesis by auto
qed

subsection \<open>The guarded PowerSet\<close>

lemma safe_Add_fresh:
  assumes un: "unlocked st a" and c: "objects (ssets st ! a) < length (usets st)"
    and new: "v \<notin> set (usets st ! objects (ssets st ! a))"
  shows "safe_Add st a v =
     Inr (True,
          st\<lparr>usets := (usets st)[objects (ssets st ! a) := usets st ! objects (ssets st ! a) @ [v]],
             trace := trace st @ [EvLock a, EvUnlock a]\<rparr>)"
  using assms
  by (cases st)
     (auto simp: safe_Add_def unlocked_def mutex_Lock_def mutex_Unlock_def
        set_mutex_def objects_of_def on_table_def Add_def upd_mutex_id split: prod.splits)

lemma wrap_subsets_spec:
  assumes "unlocked st tss" and "objects (ssets st ! tss) = c" and "c < length (usets st)"
    and "\<forall>g. VPtr (S g) \<in> set (usets st ! c) \<longrightarrow> g < length (ssets st)"
  shows "wrap_subsets tss (ptrs ks) st =
     Inr (st\<lparr>usets := (usets st)[c := usets st ! c @
                         gptrs [length (ssets st)..<length (ssets st) + length ks]],
            ssets := ssets st @ map fresh_safe ks,
            trace := trace st @ concat (map (\<lambda>_. [EvLock tss, EvUnlock tss]) ks)\<rparr>)"
  using assms
proof (induction ks arbitrary: st)
  case Nil
  then show ?case by (simp add: ptrs_def gptrs_def)
next
  case (Cons k ks)
  let ?g = "length (ssets st)"
  let ?st1 = "st\<lparr>ssets := ssets st @ [fresh_safe k]\<rparr>"
  let ?st2 = "?st1\<lparr>usets := (usets st)[c := usets st ! c @ [VPtr (S ?g)]],
                  trace := trace st @ [EvLock tss, EvUnlock tss]\<rparr>"
  from Cons.prems(1) have tss: "tss < ?g" by (simp add: unlocked_def)
  have un1: "unlocked ?st1 tss"
    using Cons.prems(1) by (simp add: unlocked_def nth_append)
  have c1: "objects (ssets ?st1 ! tss) < length (usets ?st1)"
    using Cons.prems(2,3) tss by (simp add: nth_append)
  have new: "VPtr (S ?g) \<notin> set (usets ?st1 ! objects (ssets ?st1 ! tss))"
    using Cons.prems(2,4) tss by (auto simp: nth_append)
  have add: "safe_Add ?st1 tss (VPtr (S ?g)) = Inr (True, ?st2)"
    using safe_Add_fresh [OF un1 c1 new] Cons.prems(2) tss by (simp add: nth_append)
  have alloc: "alloc_safe st k = (?g, ?st1)"
    by (simp add: alloc_safe_def fresh_safe_def)
  have step: "wrap_subsets tss (ptrs (k # ks)) st = wrap_subsets tss (ptrs ks) ?st2"
    by (simp only: ptrs_def list.map wrap_subsets.simps val.case ref.case alloc
        prod.case add bindF_Inr)
  have un2: "unlocked ?st2 tss"
    using Cons.prems(1) by (simp add: unlocked_def nth_append)
  have o2: "objects (ssets ?st2 ! tss) = c"
    using Cons.prems(2) tss by (simp add: nth_append)
  have c2: "c < length (usets ?st2)"
    using Cons.prems(3) by simp
  have f2: "\<forall>g. VPtr (S g) \<in> set (usets ?st2 ! c) \<longrightarrow> g < length (ssets ?st2)"
    using Cons.prems(3,4) by (auto simp: less_Suc_eq)
  have range: "[?g..<Suc (?g + length ks)] = ?g # [Suc ?g..<Suc (?g + length ks)]"
    by (subst upt_rec) simp
  have "wrap_subsets tss (ptrs ks) ?st2 =
     Inr (?st2\<lparr>usets := (usets ?st2)[c := usets ?st2 ! c @
                         gptrs [length (ssets ?st2)..<length (ssets ?st2) + length ks]],
            ssets := ssets ?st2 @ map fresh_safe ks,
            trace := trace ?st2 @ concat (map (\<lambda>_. [EvLock tss, EvUnlock tss]) ks)\<rparr>)"
    by (rule Cons.IH [OF un2 o2 c2 f2])
  then show ?case
    unfolding step using Cons.prems(3) by (simp add: gptrs_def range del: upt_Suc)
qed

lemma unsafe_PowerSet_members:
  assumes wf: "wf_state st" and a: "a < length (usets st)"
  shows "\<exists>ps st'. unsafe_PowerSet st a = Inr (U ps, st') \<and> distinct (usets st' ! ps) \<and>
           map (pointee st') (usets st' ! ps) = map set (fold extend_family (usets st ! a) [[]])"
proof -
  from unsafe_PowerSet_spec [OF wf a] obtain ps ks st' where
    r: "unsafe_PowerSet st a = Inr (U ps, st')" and i: "pow_inv st' ps ks" and
    t: "map (\<lambda>k. usets st' ! k) ks = fold extend_family (usets st ! a) [[]]"
    by blast
  note p = pow_inv_D [OF i]
  have "map (pointee st') (ptrs ks) = map set (map (\<lambda>k. usets st' ! k) ks)"
    by (simp add: ptrs_def)
  then show ?thesis
    using r p(2,3) t by simp
qed

lemma wf_state_mutex:
  assumes "wf_state st" "a < length (ssets st)"
  shows "wf_state (st\<lparr>ssets := (ssets st)[a := rd f (ssets st ! a)], trace := tr\<rparr>)"
  using assms by (auto simp: wf_state_def list_all_length nth_list_update)

lemma safe_PowerSet_members:
  assumes wf: "wf_state st" and ra: "rlockable st a"
  shows "\<exists>tss st'. safe_PowerSet st a = Inr (S tss, st') \<and> distinct (table_of st' tss) \<and>
           map (pointee st') (table_of st' tss) =
             map set (fold extend_family (table_of st a) [[]])"
proof -
  have a: "a < length (ssets st)" and w: "\<not> writer (mutex (ssets st ! a))"
    using ra by (simp_all add: rlockable_def)
  let ?c = "objects (ssets st ! a)"
  have c: "?c < length (usets st)" by (rule wf_table(1) [OF wf a])
  let ?st1 = "st\<lparr>ssets := (ssets st)[a := rd Suc (ssets st ! a)], trace := trace st @ [EvRLock a]\<rparr>"
  have 1: "mutex_RLock a st = Inr ?st1" using a w by (rule mutex_RLock_ok)
  have 2: "objects_of ?st1 a = Inr ?c" using a by (simp add: objects_of_def)
  have wf1: "wf_state ?st1" using wf a by (rule wf_state_mutex)
  have c1: "?c < length (usets ?st1)" using c by simp
  from unsafe_PowerSet_spec [OF wf1 c1] obtain ps ks st2 where
    3: "unsafe_PowerSet ?st1 ?c = Inr (U ps, st2)" and i: "pow_inv st2 ps ks" and
    t: "map (\<lambda>k. usets st2 ! k) ks = fold extend_family (usets ?st1 ! ?c) [[]]" and
    g: "grows ?st1 st2"
    by blast
  note p = pow_inv_D [OF i]
  have ss2: "ssets st2 = (ssets st)[a := rd Suc (ssets st ! a)]"
    and tr2: "trace st2 = trace st @ [EvRLock a]"
    using g by (simp_all add: grows_def)
  let ?st3 = "st2\<lparr>ssets := (ssets st2)[a := rd (\<lambda>n. n - 1) (ssets st2 ! a)],
                  trace := trace st2 @ [EvRUnlock a]\<rparr>"
  have 4: "mutex_RUnlock a st2 = Inr ?st3"
    using a by (intro mutex_RUnlock_ok) (simp_all add: ss2)
  have ss3: "ssets ?st3 = ssets st"
    using rlock_restore [OF a] by (simp add: ss2)
  let ?c' = "length (usets st2)" and ?tss = "length (ssets st)"
  let ?st5 = "?st3\<lparr>usets := usets st2 @ [[]], ssets := ssets st @ [fresh_safe ?c']\<rparr>"
  have 5: "alloc_unsafe ?st3 newThreadUnsafeSet = (?c', ?st3\<lparr>usets := usets st2 @ [[]]\<rparr>)"
    by (simp add: alloc_unsafe_def newThreadUnsafeSet_def)
  have 6: "alloc_safe (?st3\<lparr>usets := usets st2 @ [[]]\<rparr>) ?c' = (?tss, ?st5)"
    using ss3 by (simp add: alloc_safe_def fresh_safe_def)
  have 7: "Set_Iter ?st5 (U ps) = Inr (ptrs ks, ?st5)"
    using p(1,2) by (simp add: nth_append)
  have un: "unlocked ?st5 ?tss"
    by (simp add: unlocked_def fresh_safe_def)
  have o: "objects (ssets ?st5 ! ?tss) = ?c'"
    by (simp add: fresh_safe_def)
  have cv: "?c' < length (usets ?st5)" by simp
  have none: "\<forall>g. VPtr (S g) \<in> set (usets ?st5 ! ?c') \<longrightarrow> g < length (ssets ?st5)"
    by simp
  let ?st7 = "?st5\<lparr>usets := (usets ?st5)[?c' := usets ?st5 ! ?c' @
                         gptrs [length (ssets ?st5)..<length (ssets ?st5) + length ks]],
            ssets := ssets ?st5 @ map fresh_safe ks,
            trace := trace ?st5 @ concat (map (\<lambda>_. [EvLock ?tss, EvUnlock ?tss]) ks)\<rparr>"
  have 8: "wrap_subsets ?tss (ptrs ks) ?st5 = Inr ?st7"
    by (rule wrap_subsets_spec [OF un o cv none])
  have res: "safe_PowerSet st a = Inr (S ?tss, ?st7)"
    unfolding safe_PowerSet_def
    by (simp only: 1 2 3 4 5 6 7 8 bindF_Inr prod.case ref.case)
  have tbl: "table_of ?st7 ?tss = gptrs [Suc ?tss..<Suc ?tss + length ks]"
    by (simp add: table_of_def nth_append fresh_safe_def)
  have old: "\<forall>k \<in> set ks. k < ?c'"
    using p(4) by (simp add: list_all_iff)
  have pt: "map (pointee ?st7) (gptrs [Suc ?tss..<Suc ?tss + length ks]) =
            map (\<lambda>k. set (usets st2 ! k)) ks"
  proof (rule nth_equalityI)
    show "length (map (pointee ?st7) (gptrs [Suc ?tss..<Suc ?tss + length ks])) =
          length (map (\<lambda>k. set (usets st2 ! k)) ks)"
      by (simp add: gptrs_def del: upt_Suc)
  next
    fix j assume "j < length (map (pointee ?st7) (gptrs [Suc ?tss..<Suc ?tss + length ks]))"
    then have j: "j < length ks" by (simp add: gptrs_def del: upt_Suc)
    then have kj: "ks ! j < ?c'" using old by simp
    have "pointee ?st7 (VPtr (S (Suc ?tss + j))) = set (usets st2 ! (ks ! j))"
      using j kj by (simp add: table_of_def nth_append fresh_safe_def)
    then show "map (pointee ?st7) (gptrs [Suc ?tss..<Suc ?tss + length ks]) ! j =
          map (\<lambda>k. set (usets st2 ! k)) ks ! j"
      using j by (simp add: gptrs_def del: upt_Suc)
  qed
  have fam: "map (\<lambda>k. set (usets st2 ! k)) ks = map set (fold extend_family (table_of st a) [[]])"
  proof -
    have "map (\<lambda>k. set (usets st2 ! k)) ks = map set (map (\<lambda>k. usets st2 ! k) ks)"
      by simp
    also have "\<dots> = map set (fold extend_family (usets ?st1 ! ?c) [[]])"
      by (simp only: t)
    finally show ?thesis by (simp add: table_of_def)
  qed
  have d: "distinct (gptrs [Suc ?tss..<Suc ?tss + length ks])"
    by (simp add: gptrs_def distinct_map inj_on_def del: upt_Suc)
  have d': "distinct (table_of ?st7 ?tss)"
    by (simp only: tbl d)
  have m': "map (pointee ?st7) (table_of ?st7 ?tss) =
            map set (fold extend_family (table_of st a) [[]])"
    by (simp only: tbl pt fam)
  from res d' m' show ?thesis by blast
qed

lemma power_set_ofI:
  assumes dA: "distinct A" and dm: "distinct members"
    and m: "map (pointee st') members = map set (fold extend_family A [[]])"
  shows "power_set_of st' members A"
proof -
  have "length members = length (fold extend_family A [[]])"
    using m by (metis length_map)
  then have len: "length members = 2 ^ length A"
    by (simp add: length_extend_family)
  have "pointee st' ` set members = set (map (pointee st') members)" by simp
  also have "\<dots> = PowerSet_spec A" by (simp only: m family_is_spec)
  finally have spec: "pointee st' ` set members = PowerSet_spec A" .
  then have pow: "pointee st' ` set members = Pow (set A)"
    by (simp add: PowerSet_spec_Pow)
  have card: "card (pointee st' ` set members) = 2 ^ length A"
    using dA by (simp add: pow card_Pow distinct_card)
  have "{} \<in> pointee st' ` set members" and "set A \<in> pointee st' ` set members"
    by (simp_all add: pow)
  then have e: "\<exists>e \<in> set members. pointee st' e = {}"
    and f: "\<exists>f \<in> set members. pointee st' f = set A"
    by auto
  show ?thesis
    unfolding power_set_of_def
    using len dm pow spec card e f by (simp add: Cardinality_def)
qed

text \<open>
  C4. \<open>PowerSet\<close> of an unguarded set \<open>A\<close> returns a new unguarded set of \<open>2 ^ |A|\<close>
  pointers; the sets they point to are exactly the subsets of \<open>A\<close>, each once, among them
  the empty set and a set with the elements of \<open>A\<close>; and this family is the one obtained
  by starting from the family of the empty set alone and, for each element of \<open>A\<close>,
  adding to the family every member with that element added. The guarded \<open>PowerSet\<close>
  returns, when the read lock can be taken, a guarded set of pointers to guarded sets
  with the same properties.
\<close>

theorem PowerSet_all_subsets:
  "(wf_state st \<and> a < length (usets st) \<longrightarrow>
      (\<exists>ps st'. unsafe_PowerSet st a = Inr (U ps, st') \<and>
         power_set_of st' (usets st' ! ps) (usets st ! a))) \<and>
   (wf_state st \<and> rlockable st g \<longrightarrow>
      (\<exists>tss st'. safe_PowerSet st g = Inr (S tss, st') \<and>
         power_set_of st' (table_of st' tss) (table_of st g)))"
proof (intro conjI impI)
  assume "wf_state st \<and> a < length (usets st)"
  then have wf: "wf_state st" and a: "a < length (usets st)" by simp_all
  have dA: "distinct (usets st ! a)"
    using wf a by (simp add: wf_state_def list_all_length)
  from unsafe_PowerSet_members [OF wf a] obtain ps st' where
    r: "unsafe_PowerSet st a = Inr (U ps, st')" and d: "distinct (usets st' ! ps)" and
    m: "map (pointee st') (usets st' ! ps) = map set (fold extend_family (usets st ! a) [[]])"
    by blast
  from power_set_ofI [OF dA d m] r
  show "\<exists>ps st'. unsafe_PowerSet st a = Inr (U ps, st') \<and>
         power_set_of st' (usets st' ! ps) (usets st ! a)"
    by blast
next
  assume "wf_state st \<and> rlockable st g"
  then have wf: "wf_state st" and rg: "rlockable st g" by simp_all
  have dA: "distinct (table_of st g)"
    using wf rg by (simp add: wf_table rlockable_def)
  from safe_PowerSet_members [OF wf rg] obtain tss st' where
    r: "safe_PowerSet st g = Inr (S tss, st')" and d: "distinct (table_of st' tss)" and
    m: "map (pointee st') (table_of st' tss) = map set (fold extend_family (table_of st g) [[]])"
    by blast
  from power_set_ofI [OF dA d m] r
  show "\<exists>tss st'. safe_PowerSet st g = Inr (S tss, st') \<and>
         power_set_of st' (table_of st' tss) (table_of st g)"
    by blast
qed

theorem PowerSet_all_subsets_witness:
  "wf_state example_state \<and> 0 < length (usets example_state) \<and> rlockable example_state 1 \<and>
   (\<exists>ps st'. unsafe_PowerSet example_state 0 = Inr (U ps, st') \<and>
      power_set_of st' (usets st' ! ps) (usets example_state ! 0)) \<and>
   (\<exists>tss st'. safe_PowerSet example_state 1 = Inr (S tss, st') \<and>
      power_set_of st' (table_of st' tss) (table_of example_state 1))"
proof -
  have h: "0 < length (usets example_state)" by (simp add: example_state_def)
  from PowerSet_all_subsets [of example_state 0 1] example_state_wf h example_state_rlockable(2)
  show ?thesis by blast
qed

lemma PowerSet_of_empty:
  "unsafe_PowerSet example_state 2 =
     Inr (U 4, example_state\<lparr>usets := usets example_state @ [[VPtr (U 5)], []]\<rparr>)"
  by (simp add: example_state_def unsafe_PowerSet_def NewThreadUnsafeSet_def alloc_unsafe_def
      on_table_def Add_def newThreadUnsafeSet_def)

lemma PowerSet_of_pair:
  "unsafe_PowerSet example_state 0 =
     Inr (U 12, example_state\<lparr>usets := usets example_state @
        [[VPtr (U 5)], [], [VInt 1], [VPtr (U 6)], [VPtr (U 5), VPtr (U 6)], [VStr ''a''],
          [VInt 1, VStr ''a''], [VPtr (U 9), VPtr (U 10)],
          [VPtr (U 5), VPtr (U 6), VPtr (U 9), VPtr (U 10)]]\<rparr>)"
  by (simp add: example_state_def unsafe_PowerSet_def NewThreadUnsafeSet_def alloc_unsafe_def
      on_table_def Add_def newThreadUnsafeSet_def copy_member_def add_all_def unsafe_Union_def)

section \<open>Round trip through the reference codec\<close>

subsection \<open>Strings and numbers\<close>

lemma string_body_plain:
  "list_all plain_char x \<Longrightarrow> string_body acc (x @ CHR 0x22 # rest) = Inr (acc @ x, rest)"
proof (induction x arbitrary: acc)
  case Nil
  then show ?case by simp
next
  case (Cons c x)
  from Cons.prems have c: "plain_char c" and x: "list_all plain_char x" by simp_all
  have "c \<noteq> CHR 0x22" "c \<noteq> CHR 0x5C" "\<not> (of_char c :: nat) < 0x20" "\<not> (of_char c :: nat) \<ge> 0x80"
    using c by (simp_all add: plain_char_def)
  then show ?case
    using Cons.IH [OF x, of "acc @ [c]"] by simp
qed

lemma digit_numchar: "is_digit c \<Longrightarrow> is_numchar c"
  by (auto simp: is_digit_def is_numchar_def)

lemma numchar_special [simp]:
  "is_numchar CHR ''.''" "is_numchar CHR ''e''" "is_numchar CHR ''E''"
  "is_numchar CHR ''+''" "is_numchar CHR ''-''"
  by (simp_all add: is_numchar_def)

lemma takeWhile_digit_numchar: "list_all is_numchar (takeWhile is_digit xs)"
  by (induction xs) (simp_all add: digit_numchar)

lemma takeWhile_digit_digit: "list_all is_digit (takeWhile is_digit xs)"
  by (induction xs) simp_all

lemma int_part_prefix:
  assumes "int_part s = Some r"
  shows "\<exists>p. s = p @ r \<and> p \<noteq> [] \<and> list_all is_digit p"
proof (cases s)
  case Nil
  then show ?thesis using assms by (simp add: int_part_def)
next
  case (Cons c cs)
  show ?thesis
  proof (cases "c = CHR ''0''")
    case True
    then have "r = cs" using assms Cons by (simp add: int_part_def)
    then show ?thesis using Cons True by (intro exI [of _ "[c]"]) (simp add: is_digit_def)
  next
    case False
    then have d: "is_digit c" and r: "r = dropWhile is_digit cs"
      using assms Cons by (auto simp: int_part_def split: if_splits)
    have "s = (c # takeWhile is_digit cs) @ r"
      using Cons r by simp
    moreover have "list_all is_digit (c # takeWhile is_digit cs)"
      using d by (simp add: takeWhile_digit_digit)
    ultimately show ?thesis by blast
  qed
qed

lemma frac_part_prefix:
  assumes "frac_part s = Some r"
  shows "\<exists>p. s = p @ r \<and> list_all is_numchar p"
proof (cases s)
  case Nil
  then show ?thesis using assms by (simp add: frac_part_def)
next
  case (Cons c cs)
  show ?thesis
  proof (cases "c = CHR ''.''")
    case False
    then have "r = s" using assms Cons by (simp add: frac_part_def)
    then show ?thesis by (intro exI [of _ "[]"]) simp
  next
    case True
    then obtain d ds where cs: "cs = d # ds" and d: "is_digit d" and r: "r = dropWhile is_digit ds"
      using assms Cons by (auto simp: frac_part_def split: list.splits if_splits)
    have "s = (c # d # takeWhile is_digit ds) @ r"
      using Cons cs r by simp
    moreover have "list_all is_numchar (c # d # takeWhile is_digit ds)"
      using d True by (simp add: digit_numchar takeWhile_digit_numchar)
    ultimately show ?thesis by blast
  qed
qed

lemma exp_part_prefix:
  assumes "exp_part s = Some r"
  shows "\<exists>p. s = p @ r \<and> list_all is_numchar p"
proof (cases s)
  case Nil
  then show ?thesis using assms by (simp add: exp_part_def)
next
  case (Cons c cs)
  show ?thesis
  proof (cases "c = CHR ''e'' \<or> c = CHR ''E''")
    case False
    then have "r = s" using assms Cons by (simp add: exp_part_def)
    then show ?thesis by (intro exI [of _ "[]"]) simp
  next
    case True
    have c: "is_numchar c" using True by auto
    have e: "exp_part s =
        (case (case cs of [] \<Rightarrow> cs
               | x # r' \<Rightarrow> if x = CHR ''+'' \<or> x = CHR ''-'' then r' else cs) of
           [] \<Rightarrow> None
         | d # r2 \<Rightarrow> if is_digit d then Some (dropWhile is_digit r2) else None)"
      using Cons True by (simp add: exp_part_def)
    show ?thesis
    proof (cases "\<exists>r'. cs = CHR ''+'' # r' \<or> cs = CHR ''-'' # r'")
      case True
      then obtain x r' where cs: "cs = x # r'" and x: "x = CHR ''+'' \<or> x = CHR ''-''"
        by auto
      have xn: "is_numchar x" using x by auto
      from assms e cs x obtain d ds where r': "r' = d # ds" and d: "is_digit d"
        and r: "r = dropWhile is_digit ds"
        by (cases r') (auto split: if_splits)
      have "s = (c # x # d # takeWhile is_digit ds) @ r"
        using Cons cs r' r by simp
      moreover have "list_all is_numchar (c # x # d # takeWhile is_digit ds)"
        using c xn d by (simp add: digit_numchar takeWhile_digit_numchar)
      ultimately show ?thesis by blast
    next
      case False
      then have e': "exp_part s =
          (case cs of [] \<Rightarrow> None
           | d # r2 \<Rightarrow> if is_digit d then Some (dropWhile is_digit r2) else None)"
        unfolding e by (cases cs) auto
      from assms e' obtain d ds where cs: "cs = d # ds" and d: "is_digit d"
        and r: "r = dropWhile is_digit ds"
        by (cases cs) (auto split: if_splits)
      have "s = (c # d # takeWhile is_digit ds) @ r"
        using Cons cs r by simp
      moreover have "list_all is_numchar (c # d # takeWhile is_digit ds)"
        using c d by (simp add: digit_numchar takeWhile_digit_numchar)
      ultimately show ?thesis by blast
    qed
  qed
qed

lemma valid_number_chars:
  assumes "valid_number n"
  shows "n \<noteq> []" "list_all is_numchar n" "hd n = CHR ''-'' \<or> is_digit (hd n)"
proof -
  from assms obtain s1 s2 where 1: "int_part (opt_minus n) = Some s1"
    and 2: "frac_part s1 = Some s2" and 3: "exp_part s2 = Some []"
    by (auto simp: valid_number_def split: option.splits)
  from int_part_prefix [OF 1] obtain p1 where p1: "opt_minus n = p1 @ s1" "p1 \<noteq> []" "list_all is_digit p1"
    by blast
  from frac_part_prefix [OF 2] obtain p2 where p2: "s1 = p2 @ s2" "list_all is_numchar p2"
    by blast
  from exp_part_prefix [OF 3] obtain p3 where p3: "s2 = p3" "list_all is_numchar p3"
    by auto
  have body: "opt_minus n = p1 @ p2 @ p3" using p1 p2 p3 by simp
  have b1: "list_all is_numchar p1"
    using p1(3) by (simp add: list_all_iff digit_numchar)
  have bn: "list_all is_numchar (opt_minus n)"
    using b1 p2(2) p3(2) by (simp add: body)
  have hb: "is_digit (hd (opt_minus n))"
    using p1(2,3) by (cases p1) (simp_all add: body)
  have ne: "opt_minus n \<noteq> []" using p1(2) by (simp add: body)
  show "n \<noteq> []" using ne by (auto simp: opt_minus_def)
  show "list_all is_numchar n"
  proof (cases n)
    case Nil
    then show ?thesis by simp
  next
    case (Cons c cs)
    show ?thesis
    proof (cases "c = CHR ''-''")
      case True
      then show ?thesis using bn Cons by (simp add: opt_minus_def)
    next
      case False
      then show ?thesis using bn Cons by (simp add: opt_minus_def)
    qed
  qed
  show "hd n = CHR ''-'' \<or> is_digit (hd n)"
  proof (cases n)
    case Nil
    then show ?thesis using ne by (simp add: opt_minus_def)
  next
    case (Cons c cs)
    show ?thesis
    proof (cases "c = CHR ''-''")
      case True
      then show ?thesis using Cons by simp
    next
      case False
      then show ?thesis using hb Cons by (simp add: opt_minus_def)
    qed
  qed
qed

lemma number_token:
  assumes "valid_number n" "\<not> is_numchar c"
  shows "takeWhile is_numchar (n @ c # rest) = n" "dropWhile is_numchar (n @ c # rest) = c # rest"
  using valid_number_chars(2) [OF assms(1)] assms(2)
  by (simp_all add: list_all_iff takeWhile_append2 dropWhile_append2)

subsection \<open>Values\<close>

lemma delimiter_other: "delimiter c \<Longrightarrow> \<not> is_numchar c \<and> \<not> is_ws c"
  by (auto simp: delimiter_def is_numchar_def is_ws_def)

lemma number_start:
  assumes "h = CHR ''-'' \<or> is_digit h"
  shows "\<not> is_ws h" "h \<noteq> CHR ''[''" "h \<noteq> CHR ''{''" "h \<noteq> CHR 0x22" "h \<noteq> CHR ''n''"
    "h \<noteq> CHR ''t''" "h \<noteq> CHR ''f''" "h \<noteq> CHR '']''"
  using assms by (auto simp: is_digit_def is_ws_def)

lemma parse_number:
  assumes v: "valid_number n" and c: "delimiter c"
  shows "parse_value (u # fuel) (n @ c # rest) = Inr (JNumber n, c # rest)"
proof -
  note nc = valid_number_chars [OF v]
  from nc(1) obtain h t where n: "n = h # t" by (cases n) auto
  have h: "h = CHR ''-'' \<or> is_digit h" using nc(3) n by simp
  have tok: "takeWhile is_numchar (h # t @ c # rest) = n"
    "dropWhile is_numchar (h # t @ c # rest) = c # rest"
    using number_token [OF v, of c rest] delimiter_other [OF c] by (simp_all add: n)
  have ws: "dropWhile is_ws (h # t @ c # rest) = h # t @ c # rest"
    using number_start(1) [OF h] by simp
  have e: "n @ c # rest = h # t @ c # rest" by (simp add: n)
  have "parse_value (u # fuel) (h # t @ c # rest) =
      (if valid_number (takeWhile is_numchar (h # t @ c # rest))
       then Inr (JNumber (takeWhile is_numchar (h # t @ c # rest)),
                 dropWhile is_numchar (h # t @ c # rest))
       else Inl Malformed)"
    using number_start [OF h] h
    by (simp add: ws del: takeWhile.simps dropWhile.simps)
  then show ?thesis
    unfolding e tok using v by simp
qed

lemma parse_string:
  assumes "list_all plain_char x"
  shows "parse_value (u # fuel) (CHR 0x22 # x @ CHR 0x22 # rest) = Inr (JString x, rest)"
  using string_body_plain [OF assms, of "[]" rest]
  by (simp add: is_ws_def)

lemma parse_literals:
  "parse_value (u # fuel) (''null'' @ rest) = Inr (JNull, rest)"
  "parse_value (u # fuel) (''true'' @ rest) = Inr (JBool True, rest)"
  "parse_value (u # fuel) (''false'' @ rest) = Inr (JBool False, rest)"
  by (simp_all add: is_ws_def literal_def)

lemma plain_First: "list_all plain_char ''First''" "list_all plain_char ''Second''"
  by (simp_all add: plain_char_def)

lemma parse_value_text:
  "encodable v \<Longrightarrow> weight v \<le> length fuel \<Longrightarrow> delimiter c \<Longrightarrow>
   parse_value fuel (json_text v @ c # rest) = Inr (json_of v, c # rest)"
proof (induction v arbitrary: fuel c rest)
  case VNil
  then obtain u f where "fuel = u # f" by (cases fuel) auto
  then show ?case using parse_literals(1) [of u f "c # rest"] by simp
next
  case (VBool b)
  then obtain u f where "fuel = u # f" by (cases fuel) auto
  then show ?case
    using parse_literals(2) [of u f "c # rest"] parse_literals(3) [of u f "c # rest"]
    by (cases b) simp_all
next
  case (VInt n)
  then show ?case by simp
next
  case (VStr x)
  then obtain u f where "fuel = u # f" by (cases fuel) auto
  then show ?case using parse_string [of x u f "c # rest"] VStr.prems(1) by simp
next
  case (VNumber n)
  then obtain u f where "fuel = u # f" by (cases fuel) auto
  then show ?case using parse_number [of n c u f rest] VNumber.prems by simp
next
  case (VPtr r)
  then show ?case by simp
next
  case (OrderedPair x y)
  from OrderedPair.prems(2) obtain u1 u2 u3 f where fuel: "fuel = u1 # u2 # u3 # f"
    and wx: "weight x \<le> length (u3 # f)" and wy: "weight y \<le> length f"
    by (cases fuel; cases "tl fuel"; cases "tl (tl fuel)") auto
  from OrderedPair.prems(1) have ex: "encodable x" and ey: "encodable y" by simp_all
  have dc: "delimiter CHR '',''" and db: "delimiter CHR ''}''"
    by (simp_all add: delimiter_def)
  let ?tail = "CHR ''}'' # c # rest"
  let ?snd = "CHR 0x22 # ''Second'' @ CHR 0x22 # CHR '':'' # json_text y @ ?tail"
  have px: "parse_value (u3 # f) (json_text x @ CHR '','' # ?snd) = Inr (json_of x, CHR '','' # ?snd)"
    by (rule OrderedPair.IH(1) [OF ex wx dc])
  have py: "parse_value f (json_text y @ ?tail) = Inr (json_of y, ?tail)"
    by (rule OrderedPair.IH(2) [OF ey wy db])
  have k1: "string_body [] (''First'' @ CHR 0x22 # CHR '':'' # json_text x @ CHR '','' # ?snd) =
      Inr (''First'', CHR '':'' # json_text x @ CHR '','' # ?snd)"
    using string_body_plain [OF plain_First(1), of "[]"] by simp
  have k2: "string_body [] (''Second'' @ CHR 0x22 # CHR '':'' # json_text y @ ?tail) =
      Inr (''Second'', CHR '':'' # json_text y @ ?tail)"
    using string_body_plain [OF plain_First(2), of "[]"] by simp
  have m2: "parse_members (u3 # f) [(''First'', json_of x)] ?snd =
      Inr ([(''First'', json_of x), (''Second'', json_of y)], c # rest)"
    using k2 py by (simp add: is_ws_def)
  have m1: "parse_members (u2 # u3 # f) []
      (CHR 0x22 # ''First'' @ CHR 0x22 # CHR '':'' # json_text x @ CHR '','' # ?snd) =
      Inr ([(''First'', json_of x), (''Second'', json_of y)], c # rest)"
    using k1 px m2 by (simp add: is_ws_def)
  show ?case
    unfolding fuel using m1 by (simp add: is_ws_def)
qed

subsection \<open>Arrays\<close>

lemma json_text_start:
  assumes "encodable v"
  shows "\<exists>h t. json_text v = h # t \<and> \<not> is_ws h \<and> h \<noteq> CHR '']''"
proof (cases v)
  case (VNumber n)
  note nc = valid_number_chars [of n]
  from assms VNumber nc(1) obtain h t where n: "n = h # t" by (cases n) auto
  then have "h = CHR ''-'' \<or> is_digit h" using nc(3) assms VNumber by simp
  from number_start(1,8) [OF this] show ?thesis using VNumber n by simp
qed (use assms in \<open>simp_all add: is_ws_def\<close>)

lemma weight_le_text: "encodable v \<Longrightarrow> weight v \<le> length (json_text v)"
proof (induction v)
  case (VNumber n)
  then show ?case using valid_number_chars(1) [of n] by (cases n) simp_all
qed simp_all

lemma length_Join: "sum_list (map length xs) \<le> length (Join xs sep)"
  by (induction xs sep rule: Join.induct) simp_all

lemma fuel_for_length: "length (fuel_for b) = 2 * length b + 2"
  by (induction b) simp_all

lemma parse_elems_texts:
  assumes "list_all encodable vs" "vs \<noteq> []"
    and "sum_list (map (\<lambda>v. Suc (weight v)) vs) \<le> length fuel"
  shows "parse_elems fuel acc (Join (map json_text vs) '','' @ CHR '']'' # rest) =
           Inr (acc @ map json_of vs, rest)"
  using assms
proof (induction vs arbitrary: fuel acc)
  case Nil
  then show ?case by simp
next
  case (Cons v vs)
  from Cons.prems(3) obtain u f where fuel: "fuel = u # f"
    and wv: "weight v \<le> length f"
    and rest: "sum_list (map (\<lambda>v. Suc (weight v)) vs) \<le> length f"
    by (cases fuel) auto
  from Cons.prems(1) have ev: "encodable v" and evs: "list_all encodable vs" by simp_all
  show ?case
  proof (cases vs)
    case Nil
    have "parse_value f (json_text v @ CHR '']'' # rest) = Inr (json_of v, CHR '']'' # rest)"
      by (rule parse_value_text [OF ev wv]) (simp add: delimiter_def)
    then show ?thesis by (simp add: fuel Nil is_ws_def)
  next
    case (Cons w ws)
    let ?more = "Join (map json_text vs) '','' @ CHR '']'' # rest"
    have "parse_value f (json_text v @ CHR '','' # ?more) = Inr (json_of v, CHR '','' # ?more)"
      by (rule parse_value_text [OF ev wv]) (simp add: delimiter_def)
    moreover have "parse_elems f (acc @ [json_of v]) ?more =
        Inr ((acc @ [json_of v]) @ map json_of vs, rest)"
      by (rule Cons.IH [OF evs _ rest]) (simp add: Cons)
    ultimately show ?thesis by (simp add: fuel Cons is_ws_def)
  qed
qed

lemma json_Marshal_text: "encodable v \<Longrightarrow> json_Marshal p v = Inr (json_text v)"
  by (induction v) (auto simp: valid_number_chars(1))

lemma marshal_items_texts:
  "list_all encodable vs \<Longrightarrow>
   marshal_items (json_Marshal p) vs items = Inr (items @ map json_text vs)"
  by (induction vs arbitrary: items) (simp_all add: json_Marshal_text)

lemma MarshalJSON_text:
  "list_all encodable s \<Longrightarrow>
   MarshalJSON (json_Marshal p) s = Inr (CHR ''['' # Join (map json_text s) '','' @ '']'')"
  by (simp add: MarshalJSON_def marshal_items_texts)

subsection \<open>Elements that are pointers to sets\<close>

lemma weight_sum_le:
  "list_all encodable vs \<Longrightarrow>
   sum_list (map (\<lambda>v. Suc (weight v)) vs) \<le> 2 * sum_list (map length (map json_text vs))"
proof (induction vs)
  case Nil
  then show ?case by simp
next
  case (Cons x xs)
  from Cons.prems have ex: "encodable x" and exs: "list_all encodable xs" by simp_all
  have "0 < weight x" by (cases x) simp_all
  then have "Suc (weight x) \<le> 2 * length (json_text x)"
    using weight_le_text [OF ex] by simp
  then show ?case using Cons.IH [OF exs] by simp
qed

lemma parse_array_text:
  assumes e: "list_all encodable vs"
    and w: "Suc (sum_list (map (\<lambda>v. Suc (weight v)) vs)) \<le> length fuel"
  shows "parse_value fuel (array_text vs @ c # rest) = Inr (JArray (map json_of vs), c # rest)"
proof -
  from w obtain u f where fuel: "fuel = u # f"
    and wf: "sum_list (map (\<lambda>v. Suc (weight v)) vs) \<le> length f"
    by (cases fuel) auto
  show ?thesis
  proof (cases vs)
    case Nil
    then show ?thesis by (simp add: fuel array_text_def is_ws_def)
  next
    case (Cons v ws)
    let ?body = "Join (map json_text vs) '',''"
    from json_text_start [of v] e Cons obtain h t where
      hv: "json_text v = h # t" and h: "\<not> is_ws h" "h \<noteq> CHR '']''"
      by auto
    have "\<exists>t'. ?body = h # t'"
      using hv Cons by (cases ws) simp_all
    then obtain t' where body: "?body = h # t'" by blast
    have "parse_elems f [] (?body @ CHR '']'' # c # rest) = Inr ([] @ map json_of vs, c # rest)"
      using e Cons wf by (intro parse_elems_texts) simp_all
    then have pe: "parse_elems f [] (h # t' @ CHR '']'' # c # rest) = Inr (map json_of vs, c # rest)"
      by (simp add: body)
    have "parse_value (u # f) (CHR ''['' # h # t' @ CHR '']'' # c # rest) =
        Inr (JArray (map json_of vs), c # rest)"
      using h pe by (simp add: is_ws_def)
    then show ?thesis
      by (simp add: fuel array_text_def body)
  qed
qed

lemma parse_member:
  assumes "member_ok ptr elems v" "member_weight elems v \<le> length fuel" "delimiter c"
  shows "parse_value fuel (member_text elems v @ c # rest) = Inr (member_json elems v, c # rest)"
proof (cases v)
  case (VPtr r)
  then show ?thesis using assms parse_array_text [of "elems r" fuel c rest] by simp
qed (use assms parse_value_text [of v fuel c rest] in simp_all)

lemma member_text_start:
  assumes "member_ok ptr elems v"
  shows "\<exists>h t. member_text elems v = h # t \<and> \<not> is_ws h \<and> h \<noteq> CHR '']''"
proof (cases v)
  case (VPtr r)
  then show ?thesis by (simp add: array_text_def is_ws_def)
qed (use assms json_text_start [of v] in simp_all)

lemma member_weight_le:
  assumes "member_ok ptr elems v"
  shows "Suc (member_weight elems v) \<le> 2 * length (member_text elems v)"
proof (cases v)
  case (VPtr r)
  have "sum_list (map (\<lambda>v. Suc (weight v)) (elems r)) \<le>
        2 * length (Join (map json_text (elems r)) '','')"
    using weight_sum_le [of "elems r"] length_Join [of "map json_text (elems r)" "'',''"]
      assms VPtr by simp
  then show ?thesis using VPtr by (simp add: array_text_def)
next
  case VNil
  then show ?thesis by simp
next
  case (VBool b)
  then show ?thesis by simp
next
  case (VInt n)
  then show ?thesis using assms by simp
next
  case (VStr x)
  then show ?thesis by simp
next
  case (VNumber n)
  then have "valid_number n" using assms by simp
  from valid_number_chars(1) [OF this] show ?thesis using VNumber by (cases n) simp_all
next
  case (OrderedPair x y)
  then have "encodable v" using assms by simp
  from weight_le_text [OF this] show ?thesis using OrderedPair by simp
qed

lemma parse_elems_members:
  assumes "list_all (member_ok ptr elems) vs" "vs \<noteq> []"
    and "sum_list (map (\<lambda>v. Suc (member_weight elems v)) vs) \<le> length fuel"
  shows "parse_elems fuel acc (Join (map (member_text elems) vs) '','' @ CHR '']'' # rest) =
           Inr (acc @ map (member_json elems) vs, rest)"
  using assms
proof (induction vs arbitrary: fuel acc)
  case Nil
  then show ?case by simp
next
  case (Cons v vs)
  from Cons.prems(3) obtain u f where fuel: "fuel = u # f"
    and wv: "member_weight elems v \<le> length f"
    and rest: "sum_list (map (\<lambda>v. Suc (member_weight elems v)) vs) \<le> length f"
    by (cases fuel) auto
  from Cons.prems(1) have ev: "member_ok ptr elems v"
    and evs: "list_all (member_ok ptr elems) vs" by simp_all
  show ?case
  proof (cases vs)
    case Nil
    have "parse_value f (member_text elems v @ CHR '']'' # rest) =
        Inr (member_json elems v, CHR '']'' # rest)"
      by (rule parse_member [OF ev wv]) (simp add: delimiter_def)
    then show ?thesis by (simp add: fuel Nil is_ws_def)
  next
    case (Cons w ws)
    let ?more = "Join (map (member_text elems) vs) '','' @ CHR '']'' # rest"
    have "parse_value f (member_text elems v @ CHR '','' # ?more) =
        Inr (member_json elems v, CHR '','' # ?more)"
      by (rule parse_member [OF ev wv]) (simp add: delimiter_def)
    moreover have "parse_elems f (acc @ [member_json elems v]) ?more =
        Inr ((acc @ [member_json elems v]) @ map (member_json elems) vs, rest)"
      by (rule Cons.IH [OF evs _ rest]) (simp add: Cons)
    ultimately show ?thesis by (simp add: fuel Cons is_ws_def)
  qed
qed

lemma json_Marshal_member:
  "member_ok ptr elems v \<Longrightarrow> json_Marshal ptr v = Inr (member_text elems v)"
  by (cases v) (simp_all add: json_Marshal_text MarshalJSON_text array_text_def valid_number_chars(1))

lemma marshal_items_members:
  "list_all (member_ok ptr elems) vs \<Longrightarrow>
   marshal_items (json_Marshal ptr) vs items = Inr (items @ map (member_text elems) vs)"
proof (induction vs arbitrary: items)
  case Nil
  then show ?case by simp
next
  case (Cons v vs)
  from Cons.prems have ev: "member_ok ptr elems v"
    and evs: "list_all (member_ok ptr elems) vs" by simp_all
  show ?case
    using Cons.IH [OF evs, of "items @ [member_text elems v]"]
    by (simp add: json_Marshal_member [OF ev])
qed

lemma MarshalJSON_members:
  "list_all (member_ok ptr elems) s \<Longrightarrow>
   MarshalJSON (json_Marshal ptr) s =
     Inr (CHR ''['' # Join (map (member_text elems) s) '','' @ '']'')"
  by (simp add: MarshalJSON_def marshal_items_members)

lemma Decode_members:
  assumes "list_all (member_ok ptr elems) s"
  shows "json_Decode (CHR ''['' # Join (map (member_text elems) s) '','' @ '']'') =
           Inr (map (member_json elems) s)"
proof (cases s)
  case Nil
  then show ?thesis by (simp add: json_Decode_def is_ws_def)
next
  case (Cons v vs)
  let ?body = "Join (map (member_text elems) s) '',''"
  let ?b = "CHR ''['' # ?body @ '']''"
  obtain f where fuel: "fuel_for ?b = () # f" and lf: "length f = 2 * length ?b + 1"
    using fuel_for_length [of ?b] by (cases "fuel_for ?b") auto
  from member_text_start [of ptr elems v] assms Cons obtain h t where
    hv: "member_text elems v = h # t" and h: "\<not> is_ws h" "h \<noteq> CHR '']''"
    by auto
  have "\<exists>t'. ?body = h # t'"
    using hv Cons by (cases vs) simp_all
  then obtain t' where body: "?body = h # t'" by blast
  have w: "sum_list (map (\<lambda>v. Suc (member_weight elems v)) s) \<le>
           2 * sum_list (map length (map (member_text elems) s))"
    using assms
  proof (induction s)
    case Nil
    then show ?case by simp
  next
    case (Cons x xs)
    from Cons.prems have ex: "member_ok ptr elems x"
      and exs: "list_all (member_ok ptr elems) xs" by simp_all
    show ?case using Cons.IH [OF exs] member_weight_le [OF ex] by simp
  qed
  have "sum_list (map (\<lambda>v. Suc (member_weight elems v)) s) \<le> length f"
    using w length_Join [of "map (member_text elems) s" "'',''"] lf by simp
  then have "parse_elems f [] (?body @ CHR '']'' # []) = Inr ([] @ map (member_json elems) s, [])"
    using assms Cons by (intro parse_elems_members) simp_all
  then have pe: "parse_elems f [] (h # t' @ '']'') = Inr (map (member_json elems) s, [])"
    by (simp add: body)
  have "parse_value (() # f) (CHR ''['' # h # t' @ '']'') =
      Inr (JArray (map (member_json elems) s), [])"
    using h pe by (simp add: is_ws_def)
  then have "parse_value (() # f) ?b = Inr (JArray (map (member_json elems) s), [])"
    by (simp only: body append_Cons)
  then have pv: "parse_value (fuel_for ?b) ?b = Inr (JArray (map (member_json elems) s), [])"
    by (simp only: fuel)
  show ?thesis
    unfolding json_Decode_def by (simp only: pv sum.case prod.case jvalue.case)
qed

lemma to_val_member_json:
  "member_ok ptr elems v \<Longrightarrow>
   to_val (member_json elems v) = (if is_scalar v then Some v else None)"
  by (cases v) simp_all

lemma add_decoded_members:
  assumes "distinct vs" "list_all (member_ok ptr elems) vs"
  shows "add_decoded (map (member_json elems) vs) acc =
           acc @ filter (\<lambda>v. is_scalar v \<and> v \<notin> set acc) vs"
  using assms
proof (induction vs arbitrary: acc)
  case Nil
  then show ?case by simp
next
  case (Cons v vs)
  from Cons.prems have v: "v \<notin> set vs" and d: "distinct vs"
    and ev: "member_ok ptr elems v" and evs: "list_all (member_ok ptr elems) vs" by simp_all
  show ?case
  proof (cases "is_scalar v")
    case False
    then show ?thesis
      using Cons.IH [OF d evs, of acc] by (simp add: to_val_member_json [OF ev])
  next
    case True
    show ?thesis
    proof (cases "v \<in> set acc")
      case True
      then show ?thesis
        using Cons.IH [OF d evs, of acc] \<open>is_scalar v\<close>
        by (simp add: to_val_member_json [OF ev] Add_def)
    next
      case False
      have "filter (\<lambda>x. is_scalar x \<and> x \<noteq> v \<and> x \<notin> set acc) vs =
            filter (\<lambda>x. is_scalar x \<and> x \<notin> set acc) vs"
        using v by (intro filter_cong) auto
      then show ?thesis
        using Cons.IH [OF d evs, of "acc @ [v]"] \<open>is_scalar v\<close> False
        by (simp add: to_val_member_json [OF ev] Add_def)
    qed
  qed
qed

lemma roundtrip_members:
  assumes "distinct s" "list_all (member_ok ptr elems) s"
  shows "UnmarshalJSON json_Decode newThreadUnsafeSet
           (CHR ''['' # Join (map (member_text elems) s) '','' @ '']'') =
         (None, filter is_scalar s)"
  using add_decoded_members [OF assms, of "[]"]
  by (simp add: UnmarshalJSON_def Decode_members [OF assms(2)] newThreadUnsafeSet_def)

subsection \<open>The round trip of a set\<close>




lemma member_ok_examples:
  "list_all (member_ok (\<lambda>_. Inl OutsideFragment) (\<lambda>_. []))
     [VStr ''a'', VBool True, VNil, VNumber ''1.5'']"
  "list_all (member_ok (\<lambda>_. Inr ''[true]'') (\<lambda>_. [VBool True]))
     [VStr ''a'', VPtr (U 0), VNumber ''1.5'']"
  "list_all (member_ok (\<lambda>_. Inl OutsideFragment) (\<lambda>_. []))
     [VStr ''a'', OrderedPair (VNumber ''2'') VNil]"
  by (simp_all add: plain_char_def valid_number_def opt_minus_def int_part_def frac_part_def
      exp_part_def is_digit_def MarshalJSON_def)



lemma roundtrip_drops_pair:
  "MarshalJSON (json_Marshal (\<lambda>_. Inl OutsideFragment))
     [VStr ''a'', OrderedPair (VNumber ''2'') VNil] =
     Inr (CHR ''['' # json_text (VStr ''a'') @ '','' @
          json_text (OrderedPair (VNumber ''2'') VNil) @ '']'') \<and>
   UnmarshalJSON json_Decode newThreadUnsafeSet
     (CHR ''['' # json_text (VStr ''a'') @ '','' @
          json_text (OrderedPair (VNumber ''2'') VNil) @ '']'') = (None, [VStr ''a''])"
  using MarshalJSON_members [OF member_ok_examples(3)]
    roundtrip_members [OF _ member_ok_examples(3)]
  by simp

end
